theory Spec2Isabelle
  imports Main "HOL-Library.Sublist"
begin

unbundle bit_operations_syntax

section \<open>Python strings and \<open>os.path\<close> (posixpath)\<close>

text \<open>
  Paths are Python strings. The functions below follow \<open>posixpath.py\<close>:
  they work on the text of a path and never touch the file system.
\<close>

definition startswith :: "string \<Rightarrow> string \<Rightarrow> bool" where
  "startswith s pre = prefix pre s"

text \<open>\<open>s.split(c)\<close>: always at least one field.\<close>

fun split_on :: "char \<Rightarrow> string \<Rightarrow> string list" where
  "split_on c [] = [[]]"
| "split_on c (x # xs) =
     (if x = c then [] # split_on c xs
      else (case split_on c xs of
              [] \<Rightarrow> [[x]]
            | r # rs \<Rightarrow> (x # r) # rs))"

text \<open>\<open>s.split(c, 1)\<close>: at most one split, at the first occurrence of \<open>c\<close>.\<close>

definition split_first :: "char \<Rightarrow> string \<Rightarrow> string list" where
  "split_first c s =
     (if c \<in> set s
      then [takeWhile (\<lambda>x. x \<noteq> c) s, tl (dropWhile (\<lambda>x. x \<noteq> c) s)]
      else [s])"

text \<open>\<open>'/'.join(comps)\<close>.\<close>

fun sep_join :: "string list \<Rightarrow> string" where
  "sep_join [] = []"
| "sep_join [x] = x"
| "sep_join (x # y # ys) = x @ ''/'' @ sep_join (y # ys)"

definition isabs :: "string \<Rightarrow> bool" where
  "isabs s = startswith s ''/''"

text \<open>One step of \<open>os.path.join\<close>, and the join of a path with a list of parts.\<close>

definition join2 :: "string \<Rightarrow> string \<Rightarrow> string" where
  "join2 a b =
     (if startswith b ''/'' then b
      else if a = [] \<or> last a = CHR ''/'' then a @ b
      else a @ ''/'' @ b)"

definition path_join :: "string \<Rightarrow> string list \<Rightarrow> string" where
  "path_join a ps = foldl join2 a ps"

text \<open>\<open>os.path.split\<close>: head and tail around the last slash; the head loses its
  trailing slashes unless it consists of slashes only.\<close>

definition py_split :: "string \<Rightarrow> string \<times> string" where
  "py_split p =
     (let tail = rev (takeWhile (\<lambda>c. c \<noteq> CHR ''/'') (rev p));
          head = rev (dropWhile (\<lambda>c. c \<noteq> CHR ''/'') (rev p))
      in if head \<noteq> [] \<and> \<not> list_all (\<lambda>c. c = CHR ''/'') head
         then (rev (dropWhile (\<lambda>c. c = CHR ''/'') (rev head)), tail)
         else (head, tail))"

text \<open>\<open>os.path.normpath\<close>.\<close>

definition norm_step :: "nat \<Rightarrow> string list \<Rightarrow> string \<Rightarrow> string list" where
  "norm_step initial_slashes new_comps c =
     (if c = [] \<or> c = ''.'' then new_comps
      else if c \<noteq> ''..'' \<or> (initial_slashes = 0 \<and> new_comps = [])
              \<or> (new_comps \<noteq> [] \<and> last new_comps = ''..'')
      then new_comps @ [c]
      else if new_comps \<noteq> [] then butlast new_comps
      else new_comps)"

definition normpath :: "string \<Rightarrow> string" where
  "normpath p =
     (if p = [] then ''.''
      else
        let initial_slashes =
              (if startswith p ''/''
               then (if startswith p ''//'' \<and> \<not> startswith p ''///'' then 2 else 1)
               else (0::nat));
            comps = foldl (norm_step initial_slashes) [] (split_on CHR ''/'' p);
            q = replicate initial_slashes CHR ''/'' @ sep_join comps
        in if q = [] then ''.'' else q)"

text \<open>\<open>os.path.abspath\<close>; \<open>wd\<close> is the text \<open>os.getcwd()\<close> returns.\<close>

definition abspath :: "string \<Rightarrow> string \<Rightarrow> string" where
  "abspath wd p = normpath (if isabs p then p else join2 wd p)"

datatype errno = ENOENT | EEXIST | ENOTDIR | EISDIR | ELOOP | ENOTEMPTY | EINVAL | EPERM

datatype exn =
    OSError errno
  | ShutilError
  | AssertionError
  | ValueError
  | TypeError
  | SystemExit nat

text \<open>\<open>os.path.relpath(path, start)\<close>; raises \<open>ValueError\<close> on an empty path.\<close>

definition relpath :: "string \<Rightarrow> string \<Rightarrow> string \<Rightarrow> exn + string" where
  "relpath wd p start =
     (if p = [] then Inl ValueError
      else
        let start_list = filter (\<lambda>x. x \<noteq> []) (split_on CHR ''/'' (abspath wd start));
            path_list = filter (\<lambda>x. x \<noteq> []) (split_on CHR ''/'' (abspath wd p));
            i = length (longest_common_prefix start_list path_list);
            rel_list = replicate (length start_list - i) ''..'' @ drop i path_list
        in (case rel_list of
              [] \<Rightarrow> Inr ''.''
            | r # rs \<Rightarrow> Inr (path_join r rs)))"

text \<open>\<open>os.path.commonpath([p1, p2])\<close>: the components are compared as they stand,
  only empty ones and \<open>.\<close> are dropped; \<open>..\<close> is not resolved. Mixing an absolute
  and a relative path raises \<open>ValueError\<close>.\<close>

definition commonpath :: "string \<Rightarrow> string \<Rightarrow> exn + string" where
  "commonpath p1 p2 =
     (if isabs p1 \<noteq> isabs p2 then Inl ValueError
      else
        let s1 = filter (\<lambda>c. c \<noteq> [] \<and> c \<noteq> ''.'') (split_on CHR ''/'' p1);
            s2 = filter (\<lambda>c. c \<noteq> [] \<and> c \<noteq> ''.'') (split_on CHR ''/'' p2);
            common = longest_common_prefix s1 s2
        in Inr ((if isabs p1 then ''/'' else []) @ sep_join common))"

text \<open>
  \<open>Bootstrap.get_toplevel\<close>:
  \<^verbatim>\<open>
    head, tail = os.path.split(path)
    while head != '/' and head != '':
        head, tail = os.path.split(head)
    return tail
  \<close>
  The loop need not end (a head of two slashes splits into itself), so it is a partial
  function: \<open>None\<close> is "does not return".
\<close>

partial_function (option) toplevel_loop :: "string \<Rightarrow> string \<Rightarrow> string option" where
  "toplevel_loop head tail =
     (if head \<noteq> ''/'' \<and> head \<noteq> []
      then toplevel_loop (fst (py_split head)) (snd (py_split head))
      else Some tail)"

declare toplevel_loop.simps [code]

definition get_toplevel :: "string \<Rightarrow> string option" where
  "get_toplevel p = toplevel_loop (fst (py_split p)) (snd (py_split p))"


section \<open>The file system\<close>

text \<open>
  The tree the program works on lives in the file system of the build host, and the
  kernel resolves every path the program passes to it: symbolic links are followed in
  all but (for some calls) the last component, an absolute link target is looked up
  from the root of the host. The model is a table from canonical paths (lists of
  names, from the root) to nodes. A regular file carries its inode number, so that a
  hard link (same inode) differs from a copy (a new inode); permission bits and owner
  are kept with files and directories. Times, extended attributes, devices and
  permission checks are not modelled; the process may do whatever the tree allows.
\<close>

datatype meta = Meta (mode: nat) (uid: nat) (gid: nat)

datatype node = Dir meta | File meta nat string | Link string

type_synonym path = "string list"

type_synonym tree = "(path \<times> node) list"

datatype stage =
    BootSetup
  | TmpfilesWritten
  | SymlinksSanitized
  | MutableRelocated
  | CruftRemoved
  | ConfigRelocated
  | MountpointsCreated
  | TopLevelLinksBuilt

text \<open>What the sanitizer put in the place of a symbolic link it removed.\<close>

datatype replacement = HardLink | Copy | Nothing

text \<open>
  The state of the process and its file system. \<open>stages\<close> and \<open>replaced\<close> are
  history variables, which nothing reads: the stages of the pipeline completed so
  far, in order, and the paths at which the sanitizer has replaced a symbolic link,
  each with what it put there.
\<close>

record sys =
  fs :: tree
  cwd :: path
  euid :: nat
  egid :: nat
  umask :: nat
  next_ino :: nat
  stages :: "stage list"
  replaced :: "(string \<times> replacement) list"

datatype 'a outcome = Raise exn | Return 'a

definition node_at :: "tree \<Rightarrow> path \<Rightarrow> node option" where
  "node_at t p = (if p = [] then Some (Dir (Meta 493 0 0)) else map_of t p)"

text \<open>The names in a directory, in the order the directory holds them.\<close>

definition children :: "tree \<Rightarrow> path \<Rightarrow> string list" where
  "children t d = remdups (map (\<lambda>e. last (fst e)) (filter (\<lambda>e. fst e \<noteq> [] \<and> butlast (fst e) = d) t))"

text \<open>
  Path resolution. \<open>cur\<close> is the canonical path of the directory reached so far,
  the list holds the components still to walk. \<open>follow\<close> says whether a symbolic
  link in the last component is followed. Every link followed costs one unit of
  \<open>fuel\<close>; the kernel gives up with \<open>ELOOP\<close> after 40.
\<close>

fun namei :: "nat \<Rightarrow> tree \<Rightarrow> bool \<Rightarrow> path \<Rightarrow> string list \<Rightarrow> errno + path" where
  "namei fuel t follow cur [] = Inr cur"
| "namei fuel t follow cur (c # cs) =
     (if c = [] \<or> c = ''.'' then namei fuel t follow cur cs
      else if c = ''..'' then namei fuel t follow (butlast cur) cs
      else (case node_at t (cur @ [c]) of
              None \<Rightarrow> Inl ENOENT
            | Some (Dir m) \<Rightarrow> namei fuel t follow (cur @ [c]) cs
            | Some (File m i d) \<Rightarrow> if cs = [] then Inr (cur @ [c]) else Inl ENOTDIR
            | Some (Link l) \<Rightarrow>
                if cs = [] \<and> \<not> follow then Inr (cur @ [c])
                else if l = [] then Inl ENOENT
                else if fuel = 0 then Inl ELOOP
                else namei (fuel - 1) t follow (if isabs l then [] else cur)
                       (split_on CHR ''/'' l @ cs)))"

definition getcwd :: "sys \<Rightarrow> string" where
  "getcwd s = ''/'' @ sep_join (cwd s)"

definition resolve :: "bool \<Rightarrow> sys \<Rightarrow> string \<Rightarrow> errno + path" where
  "resolve follow s p =
     (if p = [] then Inl ENOENT
      else namei 40 (fs s) follow (if isabs p then [] else cwd s) (split_on CHR ''/'' p))"

text \<open>
  The canonical path of the entry a path names, for the calls that create, remove or
  rename an entry: the parent must resolve to a directory, the last component is taken
  as it is (it need not exist). \<open>base\<close> is the directory a relative path starts from.
\<close>

definition resolve_entry_from :: "path \<Rightarrow> sys \<Rightarrow> string \<Rightarrow> errno + path" where
  "resolve_entry_from base s p =
     (if p = [] then Inl ENOENT
      else
        let cs = split_on CHR ''/'' p in
        (case namei 40 (fs s) True (if isabs p then [] else base) (butlast cs) of
           Inl e \<Rightarrow> Inl e
         | Inr d \<Rightarrow>
             (case node_at (fs s) d of
                Some (Dir m) \<Rightarrow>
                  if last cs = [] \<or> last cs = ''.'' \<or> last cs = ''..'' then Inl EINVAL
                  else Inr (d @ [last cs])
              | _ \<Rightarrow> Inl ENOTDIR)))"

definition resolve_entry :: "sys \<Rightarrow> string \<Rightarrow> errno + path" where
  "resolve_entry s p = resolve_entry_from (cwd s) s p"

definition stat_at :: "bool \<Rightarrow> sys \<Rightarrow> string \<Rightarrow> errno + node" where
  "stat_at follow s p =
     (case resolve follow s p of
        Inl e \<Rightarrow> Inl e
      | Inr c \<Rightarrow> (case node_at (fs s) c of None \<Rightarrow> Inl ENOENT | Some n \<Rightarrow> Inr n))"

subsection \<open>Queries: \<open>os.path.islink\<close>, \<open>isfile\<close>, \<open>isdir\<close>, \<open>exists\<close>, \<open>os.readlink\<close>, \<open>os.listdir\<close>\<close>

definition os_path_islink :: "sys \<Rightarrow> string \<Rightarrow> bool" where
  "os_path_islink s p = (case stat_at False s p of Inr (Link l) \<Rightarrow> True | _ \<Rightarrow> False)"

definition os_path_isfile :: "sys \<Rightarrow> string \<Rightarrow> bool" where
  "os_path_isfile s p = (case stat_at True s p of Inr (File m i d) \<Rightarrow> True | _ \<Rightarrow> False)"

definition os_path_isdir :: "sys \<Rightarrow> string \<Rightarrow> bool" where
  "os_path_isdir s p = (case stat_at True s p of Inr (Dir m) \<Rightarrow> True | _ \<Rightarrow> False)"

definition os_path_exists :: "sys \<Rightarrow> string \<Rightarrow> bool" where
  "os_path_exists s p = (case stat_at True s p of Inr n \<Rightarrow> True | Inl e \<Rightarrow> False)"

definition os_readlink :: "sys \<Rightarrow> string \<Rightarrow> string outcome" where
  "os_readlink s p =
     (case stat_at False s p of
        Inl e \<Rightarrow> Raise (OSError e)
      | Inr (Link l) \<Rightarrow> Return l
      | Inr _ \<Rightarrow> Raise (OSError EINVAL))"

definition os_listdir :: "sys \<Rightarrow> string \<Rightarrow> string list outcome" where
  "os_listdir s p =
     (case resolve True s p of
        Inl e \<Rightarrow> Raise (OSError e)
      | Inr c \<Rightarrow>
          (case node_at (fs s) c of
             Some (Dir m) \<Rightarrow> Return (children (fs s) c)
           | _ \<Rightarrow> Raise (OSError ENOTDIR)))"

text \<open>\<open>os.path.samefile\<close> as \<open>shutil._samefile\<close> uses it: false when either
  path cannot be resolved.\<close>

definition samefile :: "sys \<Rightarrow> string \<Rightarrow> string \<Rightarrow> bool" where
  "samefile s a b =
     (case (resolve True s a, resolve True s b) of
        (Inr ca, Inr cb) \<Rightarrow>
          ca = cb \<or>
          (case (node_at (fs s) ca, node_at (fs s) cb) of
             (Some (File m i d), Some (File m' i' d')) \<Rightarrow> i = i'
           | _ \<Rightarrow> False)
      | _ \<Rightarrow> False)"

subsection \<open>Changes to the table\<close>

definition remove_entry :: "path \<Rightarrow> tree \<Rightarrow> tree" where
  "remove_entry c t = filter (\<lambda>e. fst e \<noteq> c) t"

definition remove_subtree :: "path \<Rightarrow> tree \<Rightarrow> tree" where
  "remove_subtree c t = filter (\<lambda>e. \<not> prefix c (fst e)) t"

definition move_subtree :: "path \<Rightarrow> path \<Rightarrow> tree \<Rightarrow> tree" where
  "move_subtree src dst t =
     map (\<lambda>e. if prefix src (fst e) then (dst @ drop (length src) (fst e), snd e) else e) t"

definition new_mode :: "sys \<Rightarrow> nat \<Rightarrow> nat" where
  "new_mode s m = m - (m AND umask s)"

text \<open>The nodes of a copied tree: files get new inodes, everything belongs to the
  copying process, the permission bits are those of the source (\<open>shutil.copystat\<close>
  copies mode bits, not the owner), symbolic links keep their text.\<close>

fun copy_nodes :: "nat \<Rightarrow> nat \<Rightarrow> nat \<Rightarrow> (path \<times> node) list \<Rightarrow> (path \<times> node) list" where
  "copy_nodes u g i [] = []"
| "copy_nodes u g i ((q, Dir m) # es) = (q, Dir (Meta (mode m) u g)) # copy_nodes u g i es"
| "copy_nodes u g i ((q, File m k d) # es) =
     (q, File (Meta (mode m) u g) i d) # copy_nodes u g (Suc i) es"
| "copy_nodes u g i ((q, Link l) # es) = (q, Link l) # copy_nodes u g i es"

definition is_file_node :: "node \<Rightarrow> bool" where
  "is_file_node n = (case n of File m i d \<Rightarrow> True | _ \<Rightarrow> False)"

definition set_content :: "nat \<Rightarrow> string \<Rightarrow> path \<times> node \<Rightarrow> path \<times> node" where
  "set_content i d e =
     (case snd e of
        File m k old \<Rightarrow> if k = i then (fst e, File m k d) else e
      | _ \<Rightarrow> e)"

subsection \<open>System calls and \<open>shutil\<close>\<close>

text \<open>\<open>os.remove\<close> / \<open>os.unlink\<close>.\<close>

definition os_remove :: "string \<Rightarrow> sys \<Rightarrow> unit outcome \<times> sys" where
  "os_remove p s =
     (case resolve_entry s p of
        Inl e \<Rightarrow> (Raise (OSError e), s)
      | Inr c \<Rightarrow>
          (case node_at (fs s) c of
             None \<Rightarrow> (Raise (OSError ENOENT), s)
           | Some (Dir m) \<Rightarrow> (Raise (OSError EISDIR), s)
           | Some n \<Rightarrow> (Return (), s\<lparr>fs := remove_entry c (fs s)\<rparr>)))"

text \<open>\<open>os.mkdir(p, md)\<close>.\<close>

definition os_mkdir :: "string \<Rightarrow> nat \<Rightarrow> sys \<Rightarrow> unit outcome \<times> sys" where
  "os_mkdir p md s =
     (case resolve_entry s p of
        Inl e \<Rightarrow> (Raise (OSError e), s)
      | Inr c \<Rightarrow>
          (case node_at (fs s) c of
             Some n \<Rightarrow> (Raise (OSError EEXIST), s)
           | None \<Rightarrow>
               (Return (),
                s\<lparr>fs := fs s @ [(c, Dir (Meta (new_mode s md) (euid s) (egid s)))]\<rparr>)))"

text \<open>\<open>os.open(p, os.O_DIRECTORY)\<close>: the descriptor is modelled by the canonical
  path of the directory it refers to (nothing renames that directory while the
  descriptor is in use).\<close>

definition os_open_dir :: "string \<Rightarrow> sys \<Rightarrow> path outcome" where
  "os_open_dir p s =
     (case resolve True s p of
        Inl e \<Rightarrow> Raise (OSError e)
      | Inr c \<Rightarrow>
          (case node_at (fs s) c of
             Some (Dir m) \<Rightarrow> Return c
           | _ \<Rightarrow> Raise (OSError ENOTDIR)))"

text \<open>\<open>os.symlink(target, l, dir_fd=fd)\<close>: a relative \<open>l\<close> is resolved from the
  directory of the descriptor, which must still exist.\<close>

definition os_symlink_at :: "string \<Rightarrow> string \<Rightarrow> path \<Rightarrow> sys \<Rightarrow> unit outcome \<times> sys" where
  "os_symlink_at target l fd s =
     (if target = [] then (Raise (OSError ENOENT), s)
      else if \<not> isabs l \<and> (case node_at (fs s) fd of Some (Dir m) \<Rightarrow> False | _ \<Rightarrow> True)
      then (Raise (OSError ENOENT), s)
      else
        (case resolve_entry_from fd s l of
           Inl e \<Rightarrow> (Raise (OSError e), s)
         | Inr c \<Rightarrow>
             (case node_at (fs s) c of
                Some n \<Rightarrow> (Raise (OSError EEXIST), s)
              | None \<Rightarrow> (Return (), s\<lparr>fs := fs s @ [(c, Link target)]\<rparr>))))"

text \<open>\<open>os.link(src, dst)\<close>, with its default \<open>follow_symlinks=True\<close>: the new
  name refers to the regular file \<open>src\<close> resolves to.\<close>

definition os_link :: "string \<Rightarrow> string \<Rightarrow> sys \<Rightarrow> unit outcome \<times> sys" where
  "os_link src dst s =
     (case stat_at True s src of
        Inl e \<Rightarrow> (Raise (OSError e), s)
      | Inr (File m i d) \<Rightarrow>
          (case resolve_entry s dst of
             Inl e \<Rightarrow> (Raise (OSError e), s)
           | Inr c \<Rightarrow>
               (case node_at (fs s) c of
                  Some n \<Rightarrow> (Raise (OSError EEXIST), s)
                | None \<Rightarrow> (Return (), s\<lparr>fs := fs s @ [(c, File m i d)]\<rparr>)))
      | Inr _ \<Rightarrow> (Raise (OSError EPERM), s))"

text \<open>\<open>os.rename(src, dst)\<close> on one file system. Neither last component is
  followed. Renaming onto another name of the same inode does nothing.\<close>

definition os_rename :: "string \<Rightarrow> string \<Rightarrow> sys \<Rightarrow> unit outcome \<times> sys" where
  "os_rename src dst s =
     (case resolve_entry s src of
        Inl e \<Rightarrow> (Raise (OSError e), s)
      | Inr sc \<Rightarrow>
     (case node_at (fs s) sc of
        None \<Rightarrow> (Raise (OSError ENOENT), s)
      | Some sn \<Rightarrow>
     (case resolve_entry s dst of
        Inl e \<Rightarrow> (Raise (OSError e), s)
      | Inr dc \<Rightarrow>
          let moved = s\<lparr>fs := move_subtree sc dc (remove_subtree dc (fs s))\<rparr> in
          if sc = dc then (Return (), s)
          else if prefix sc dc then (Raise (OSError EINVAL), s)
          else
            (case node_at (fs s) dc of
               None \<Rightarrow> (Return (), moved)
             | Some dn \<Rightarrow>
                 (case (sn, dn) of
                    (Dir m, Dir m') \<Rightarrow>
                      if children (fs s) dc \<noteq> [] then (Raise (OSError ENOTEMPTY), s)
                      else (Return (), moved)
                  | (Dir m, _) \<Rightarrow> (Raise (OSError ENOTDIR), s)
                  | (_, Dir m') \<Rightarrow> (Raise (OSError EISDIR), s)
                  | (File m i d, File m' i' d') \<Rightarrow>
                      if i = i' then (Return (), s) else (Return (), moved)
                  | _ \<Rightarrow> (Return (), moved))))))"

text \<open>
  \<open>shutil.move(src, dst)\<close>. Into an existing directory the source keeps its base
  name, and an existing entry of that name is an error. When \<open>os.rename\<close> fails,
  \<open>shutil.move\<close> falls back to copying and deleting; on the single file system of
  this model the fall-back fails wherever the rename did, so the error is passed on.
  (One case is left out: a directory moved to a path whose parents are missing, which
  the fall-back would create.)
\<close>

definition basename :: "string \<Rightarrow> string" where
  "basename p = snd (py_split (rev (dropWhile (\<lambda>c. c = CHR ''/'') (rev p))))"

definition shutil_move :: "string \<Rightarrow> string \<Rightarrow> sys \<Rightarrow> unit outcome \<times> sys" where
  "shutil_move src dst s =
     (if os_path_isdir s dst then
        (if samefile s src dst then os_rename src dst s
         else
           let real_dst = join2 dst (basename src) in
           if os_path_exists s real_dst then (Raise ShutilError, s)
           else os_rename src real_dst s)
      else os_rename src dst s)"

text \<open>
  \<open>shutil.copytree(src, dst, symlinks=True)\<close>: \<open>src\<close> must be a directory and
  \<open>dst\<close> must not exist. The copy is taken of the tree as it stands when the call
  starts. Copying a directory into itself does not end normally, which is an error
  here. (\<open>copytree\<close> would create missing parents of \<open>dst\<close>; both callers pass a
  \<open>dst\<close> whose parent exists, and a missing parent is an error here.)
\<close>

definition shutil_copytree :: "string \<Rightarrow> string \<Rightarrow> sys \<Rightarrow> unit outcome \<times> sys" where
  "shutil_copytree src dst s =
     (case resolve True s src of
        Inl e \<Rightarrow> (Raise (OSError e), s)
      | Inr sc \<Rightarrow>
     (case node_at (fs s) sc of
        Some (Dir m) \<Rightarrow>
          (case resolve_entry s dst of
             Inl e \<Rightarrow> (Raise (OSError e), s)
           | Inr dc \<Rightarrow>
               (case node_at (fs s) dc of
                  Some n \<Rightarrow> (Raise (OSError EEXIST), s)
                | None \<Rightarrow>
                    if prefix sc dc then (Raise ShutilError, s)
                    else
                      let below = filter (\<lambda>e. strict_prefix sc (fst e)) (fs s);
                          moved = map (\<lambda>e. (dc @ drop (length sc) (fst e), snd e)) below
                      in (Return (),
                          s\<lparr>fs := fs s @ copy_nodes (euid s) (egid s) (next_ino s)
                                           ((dc, Dir m) # moved),
                            next_ino := next_ino s + length (filter (\<lambda>e. is_file_node (snd e)) below)\<rparr>)))
      | _ \<Rightarrow> (Raise (OSError ENOTDIR), s)))"

text \<open>\<open>shutil.rmtree(p)\<close>: refuses a symbolic link and anything that is not a
  directory.\<close>

definition shutil_rmtree :: "string \<Rightarrow> sys \<Rightarrow> unit outcome \<times> sys" where
  "shutil_rmtree p s =
     (case resolve False s p of
        Inl e \<Rightarrow> (Raise (OSError e), s)
      | Inr c \<Rightarrow>
          (case node_at (fs s) c of
             None \<Rightarrow> (Raise (OSError ENOENT), s)
           | Some (Link l) \<Rightarrow> (Raise (OSError EINVAL), s)
           | Some (File m i d) \<Rightarrow> (Raise (OSError ENOTDIR), s)
           | Some (Dir m) \<Rightarrow>
               if c = [] then (Raise (OSError EINVAL), s\<lparr>fs := []\<rparr>)
               else (Return (), s\<lparr>fs := remove_subtree c (fs s)\<rparr>)))"

text \<open>
  \<open>open(p, "w")\<close>, the writes and the close, as one step that leaves \<open>content\<close>
  in the file: a missing file is created (also through a dangling symbolic link), an
  existing one is truncated, under all its names.
\<close>

fun open_write :: "nat \<Rightarrow> path \<Rightarrow> string \<Rightarrow> string \<Rightarrow> sys \<Rightarrow> unit outcome \<times> sys" where
  "open_write fuel base p content s =
     (case resolve_entry_from base s p of
        Inl e \<Rightarrow> (Raise (OSError e), s)
      | Inr c \<Rightarrow>
          (case node_at (fs s) c of
             None \<Rightarrow>
               (Return (),
                s\<lparr>fs := fs s @ [(c, File (Meta (new_mode s 438) (euid s) (egid s)) (next_ino s) content)],
                  next_ino := Suc (next_ino s)\<rparr>)
           | Some (Dir m) \<Rightarrow> (Raise (OSError EISDIR), s)
           | Some (File m i d) \<Rightarrow> (Return (), s\<lparr>fs := map (set_content i content) (fs s)\<rparr>)
           | Some (Link l) \<Rightarrow>
               if fuel = 0 then (Raise (OSError ELOOP), s)
               else open_write (fuel - 1) (butlast c) l content s))"

definition write_file :: "string \<Rightarrow> string \<Rightarrow> sys \<Rightarrow> unit outcome \<times> sys" where
  "write_file p content s = open_write 40 (cwd s) p content s"


section \<open>\<open>Bootstrap.sanitize_usr_symlinks\<close>\<close>

text \<open>
  \<open>except Exception as e: log; sys.exit(1)\<close>: whatever was raised leaves as
  \<open>SystemExit(1)\<close>.
\<close>

definition exit_on_error :: "unit outcome \<times> sys \<Rightarrow> unit outcome \<times> sys" where
  "exit_on_error r =
     (case r of
        (Raise e, s) \<Rightarrow> (Raise (SystemExit 1), s)
      | (Return u, s) \<Rightarrow> (Return u, s))"

text \<open>
  The body of the \<open>try\<close>:
  \<^verbatim>\<open>
    os.remove(p)
    if os.path.isfile(target):
        os.link(target, p)
    elif os.path.isdir(target):
        shutil.copytree(target, p, symlinks=True)
  \<close>
  \<open>noted\<close> records, when the step has succeeded, what now stands at \<open>p\<close>.
\<close>

definition noted :: "string \<Rightarrow> replacement \<Rightarrow> unit outcome \<times> sys \<Rightarrow> unit outcome \<times> sys" where
  "noted p k r =
     (case r of
        (Raise e, s) \<Rightarrow> (Raise e, s)
      | (Return u, s) \<Rightarrow> (Return u, s\<lparr>replaced := replaced s @ [(p, k)]\<rparr>))"

definition sanitize_replace :: "string \<Rightarrow> string \<Rightarrow> sys \<Rightarrow> unit outcome \<times> sys" where
  "sanitize_replace p target s =
     (case os_remove p s of
        (Raise e, s1) \<Rightarrow> (Raise e, s1)
      | (Return u, s1) \<Rightarrow>
          if os_path_isfile s1 target then noted p HardLink (os_link target p s1)
          else if os_path_isdir s1 target then noted p Copy (shutil_copytree target p s1)
          else noted p Nothing (Return (), s1))"

text \<open>The body of \<open>for name in files\<close>, for one name. \<open>None\<close>: \<open>get_toplevel\<close>
  does not return.\<close>

definition sanitize_entry :: "string \<Rightarrow> string \<Rightarrow> string \<Rightarrow> sys \<Rightarrow> (unit outcome \<times> sys) option" where
  "sanitize_entry rootdir base name s =
     (let usrdir = join2 rootdir ''usr'';
          p = join2 base name
      in if \<not> os_path_islink s p then Some (Return (), s)
         else
           (case os_readlink s p of
              Raise e \<Rightarrow> Some (Raise e, s)
            | Return link \<Rightarrow>
                let target = (if isabs link then join2 rootdir (drop 1 link)
                              else join2 base link)
                in (case relpath (getcwd s) target rootdir of
                      Inl e \<Rightarrow> Some (Raise e, s)
                    | Inr rel \<Rightarrow>
                        (case commonpath target usrdir of
                           Inl e \<Rightarrow> Some (Raise e, s)
                         | Inr cp \<Rightarrow>
                             if cp = usrdir then Some (Return (), s)
                             else
                               (case get_toplevel rel of
                                  None \<Rightarrow> None
                                | Some toplevel \<Rightarrow>
                                    if toplevel \<noteq> ''var'' then Some (Return (), s)
                                    else Some (exit_on_error (sanitize_replace p target s)))))))"

fun sanitize_files :: "string \<Rightarrow> string \<Rightarrow> string list \<Rightarrow> sys \<Rightarrow> (unit outcome \<times> sys) option" where
  "sanitize_files rootdir base [] s = Some (Return (), s)"
| "sanitize_files rootdir base (name # names) s =
     (case sanitize_entry rootdir base name s of
        None \<Rightarrow> None
      | Some (Raise e, s1) \<Rightarrow> Some (Raise e, s1)
      | Some (Return u, s1) \<Rightarrow> sanitize_files rootdir base names s1)"

text \<open>
  \<open>os.walk(usrdir)\<close>, top down, not following links, as CPython 3.12 and later
  write it: a stack of directories still to visit. A directory that cannot be listed
  is skipped. \<open>entry.is_dir()\<close> follows a symbolic link, so a link to a directory is
  listed among the directories (and is then not descended into), and only a link
  that does not lead to a directory is listed among the files.
\<close>

definition entry_is_dir :: "sys \<Rightarrow> path \<Rightarrow> string \<Rightarrow> bool" where
  "entry_is_dir s c n =
     (case namei 40 (fs s) True c [n] of
        Inl e \<Rightarrow> False
      | Inr d \<Rightarrow> (case node_at (fs s) d of Some (Dir m) \<Rightarrow> True | _ \<Rightarrow> False))"

definition scandir :: "sys \<Rightarrow> string \<Rightarrow> errno + (string list \<times> string list)" where
  "scandir s topdir =
     (case resolve True s topdir of
        Inl e \<Rightarrow> Inl e
      | Inr c \<Rightarrow>
          (case node_at (fs s) c of
             Some (Dir m) \<Rightarrow>
               Inr (filter (entry_is_dir s c) (children (fs s) c),
                    filter (\<lambda>n. \<not> entry_is_dir s c n) (children (fs s) c))
           | _ \<Rightarrow> Inl ENOTDIR))"

partial_function (option) walk_loop :: "string \<Rightarrow> string list \<Rightarrow> sys \<Rightarrow> (unit outcome \<times> sys) option" where
  "walk_loop rootdir stack s =
     (case stack of
        [] \<Rightarrow> Some (Return (), s)
      | topdir # rest \<Rightarrow>
          (case scandir s topdir of
             Inl e \<Rightarrow> walk_loop rootdir rest s
           | Inr (dirs, files) \<Rightarrow>
               (case sanitize_files rootdir topdir files s of
                  None \<Rightarrow> None
                | Some (Raise e, s1) \<Rightarrow> Some (Raise e, s1)
                | Some (Return u, s1) \<Rightarrow>
                    walk_loop rootdir
                      (filter (\<lambda>d. \<not> os_path_islink s1 d) (map (join2 topdir) dirs) @ rest) s1)))"

declare walk_loop.simps [code]

definition sanitize_usr_symlinks :: "string \<Rightarrow> sys \<Rightarrow> (unit outcome \<times> sys) option" where
  "sanitize_usr_symlinks rootdir s = walk_loop rootdir [join2 rootdir ''usr''] s"

section \<open>\<open>Bootstrap.setup_boot\<close>\<close>

record boot_vars =
  vmlinuz :: "string option"
  initrd :: "string option"
  dtbs :: "string option"
  version :: "string option"

text \<open>The body of \<open>for item in os.listdir(bootdir)\<close>. A failed move of a
  \<open>System.map\<close> file is logged and the loop goes on.\<close>

definition boot_item :: "string \<Rightarrow> string \<Rightarrow> string \<Rightarrow> boot_vars \<Rightarrow> sys \<Rightarrow> boot_vars outcome \<times> sys" where
  "boot_item bootdir targetdir item a s =
     (if startswith item ''vmlinuz'' then
        (if vmlinuz a \<noteq> None then (Raise AssertionError, s)
         else
           (case split_first CHR ''-'' item of
              [x, v] \<Rightarrow> (Return (a\<lparr>vmlinuz := Some item, version := Some v\<rparr>), s)
            | _ \<Rightarrow> (Raise ValueError, s)))
      else if startswith item ''initrd.img'' \<or> startswith item ''initramfs'' then
        (if initrd a \<noteq> None then (Raise AssertionError, s)
         else (Return (a\<lparr>initrd := Some item\<rparr>), s))
      else if startswith item ''dtbs'' then
        (if dtbs a \<noteq> None then (Raise AssertionError, s)
         else (Return (a\<lparr>dtbs := Some (join2 bootdir item)\<rparr>), s))
      else if startswith item ''System.map'' then
        (Return a, snd (shutil_move (join2 bootdir item) targetdir s))
      else (Return a, s))"

fun boot_loop :: "string \<Rightarrow> string \<Rightarrow> string list \<Rightarrow> boot_vars \<Rightarrow> sys \<Rightarrow> boot_vars outcome \<times> sys" where
  "boot_loop bootdir targetdir [] a s = (Return a, s)"
| "boot_loop bootdir targetdir (item # items) a s =
     (case boot_item bootdir targetdir item a s of
        (Raise e, s1) \<Rightarrow> (Raise e, s1)
      | (Return a1, s1) \<Rightarrow> boot_loop bootdir targetdir items a1 s1)"

text \<open>\<open>os.rename(os.path.join(bootdir, name), os.path.join(targetdir, version, new))\<close>
  inside \<open>try ... except Exception: log; sys.exit(1)\<close>; joining a \<open>version\<close> that is
  still \<open>None\<close> would raise \<open>TypeError\<close> there.\<close>

definition rename_or_exit :: "string \<Rightarrow> string \<Rightarrow> string \<Rightarrow> string option \<Rightarrow> string \<Rightarrow> sys \<Rightarrow> unit outcome \<times> sys" where
  "rename_or_exit bootdir name targetdir ver new s =
     exit_on_error
       (case ver of
          None \<Rightarrow> (Raise TypeError, s)
        | Some v \<Rightarrow> os_rename (join2 bootdir name) (path_join targetdir [v, new]) s)"

definition setup_boot :: "string \<Rightarrow> string \<Rightarrow> string \<Rightarrow> sys \<Rightarrow> unit outcome \<times> sys" where
  "setup_boot rootdir bootdir targetdir s =
     (let s1 = snd (os_mkdir targetdir 511 s) in
      (case os_listdir s1 bootdir of
         Raise e \<Rightarrow> (Raise e, s1)
       | Return items \<Rightarrow>
           (case boot_loop bootdir targetdir items
                   \<lparr>vmlinuz = None, initrd = None, dtbs = None, version = None\<rparr> s1 of
              (Raise e, s2) \<Rightarrow> (Raise e, s2)
            | (Return a, s2) \<Rightarrow>
                (case vmlinuz a of
                   None \<Rightarrow> (Raise AssertionError, s2)
                 | Some k \<Rightarrow>
                     (case rename_or_exit bootdir k targetdir (version a) ''vmlinuz'' s2 of
                        (Raise e, s3) \<Rightarrow> (Raise e, s3)
                      | (Return u, s3) \<Rightarrow>
                          (case initrd a of
                             None \<Rightarrow> (Return (), s3)
                           | Some i \<Rightarrow>
                               rename_or_exit bootdir i targetdir (version a)
                                 ''initramfs.img'' s3))))))"

section \<open>\<open>Bootstrap.create_tmpfile_dir\<close>\<close>

text \<open>The package cache of the tree is a collaborator: here, the list of installed
  packages, each with its name and the list \<open>installed_files\<close>.\<close>

type_synonym package = "string \<times> string list"

definition excluded_packages :: "string list" where
  "excluded_packages =
     [''ucf'', ''base-files'', ''systemd'', ''init-system-helpers'', ''dbus'',
      ''policykit-1'', ''polkitd'', ''debconf'']"

definition var_base_dirs :: "string list" where
  "var_base_dirs =
     [''/var'', ''/var/lock'', ''/var/cache'', ''/var/spool'', ''/var/log'', ''/var/lib'']"

definition collect_dirs :: "package list \<Rightarrow> string list" where
  "collect_dirs cache =
     concat (map (\<lambda>pkg.
       if ''/var'' \<in> set (snd pkg) \<and> fst pkg \<notin> set excluded_packages
       then filter (\<lambda>file. startswith file ''/var'') (snd pkg)
       else []) cache)"

definition nl :: string where
  "nl = [CHR 0x0A]"

definition tmpfile_header :: string where
  "tmpfile_header = ''# Auto-genernated by apt-ostree'' @ nl"

definition tmpfile_line :: "string \<Rightarrow> string" where
  "tmpfile_line d = ''L '' @ d @ '' - - - - ../../usr/rootdirs'' @ d @ nl"

definition tmpfile_conf :: "string \<Rightarrow> string" where
  "tmpfile_conf rootdir = join2 rootdir ''usr/lib/tmpfiles.d/ostree-integration-autovar.conf''"

definition create_tmpfile_dir :: "string \<Rightarrow> package list \<Rightarrow> sys \<Rightarrow> unit outcome \<times> sys" where
  "create_tmpfile_dir rootdir cache s =
     (let dirs = collect_dirs cache in
      if length dirs = 0 then (Return (), s)
      else
        let conf = tmpfile_conf rootdir in
        (case (if os_path_exists s conf then os_remove conf s else (Return (), s)) of
           (Raise e, s1) \<Rightarrow> (Raise e, s1)
         | (Return u, s1) \<Rightarrow>
             write_file conf
               (tmpfile_header @
                concat (map tmpfile_line (filter (\<lambda>d. d \<notin> set var_base_dirs) dirs))) s1))"

section \<open>\<open>Bootstrap.convert_to_ostree\<close> and \<open>Bootstrap.create_ostree\<close>\<close>

definition mark :: "stage \<Rightarrow> sys \<Rightarrow> sys" where
  "mark st s = s\<lparr>stages := stages s @ [st]\<rparr>"

definition CRUFT :: "string list" where
  "CRUFT = [''boot/initrd.img'', ''boot/vmlinuz'', ''initrd.img'', ''initrd.img.old'',
            ''vmlinuz'', ''vmlinuz.old'']"

definition TOPLEVEL_LINKS :: "(string \<times> string) list" where
  "TOPLEVEL_LINKS =
     [(''home'', ''var/home''), (''media'', ''run/media''), (''mnt'', ''var/mnt''),
      (''opt'', ''var/opt''), (''ostree'', ''sysroot/ostree''), (''root'', ''var/roothome''),
      (''srv'', ''var/srv''), (''usr/local'', ''../var/usrlocal'')]"

text \<open>
  \<^verbatim>\<open>
    os.mkdir(rootdir.joinpath("usr/rootdirs"), dir_perm)
    shutil.copytree(rootdir.joinpath("var"), rootdir.joinpath("usr/rootdirs/var"), symlinks=True)
    shutil.rmtree(rootdir.joinpath("var"))
    os.mkdir(rootdir.joinpath("var"), dir_perm)
  \<close>
\<close>

definition relocate_var :: "string \<Rightarrow> sys \<Rightarrow> unit outcome \<times> sys" where
  "relocate_var rootdir s =
     (case os_mkdir (join2 rootdir ''usr/rootdirs'') 493 s of
        (Raise e, s1) \<Rightarrow> (Raise e, s1)
      | (Return u, s1) \<Rightarrow>
     (case shutil_copytree (join2 rootdir ''var'') (join2 rootdir ''usr/rootdirs/var'') s1 of
        (Raise e, s2) \<Rightarrow> (Raise e, s2)
      | (Return u, s2) \<Rightarrow>
     (case shutil_rmtree (join2 rootdir ''var'') s2 of
        (Raise e, s3) \<Rightarrow> (Raise e, s3)
      | (Return u, s3) \<Rightarrow> os_mkdir (join2 rootdir ''var'') 493 s3)))"

text \<open>\<open>for c in CRUFT: try: os.remove(rootdir.joinpath(c)) except OSError: pass\<close>\<close>

fun remove_cruft :: "string \<Rightarrow> string list \<Rightarrow> sys \<Rightarrow> sys" where
  "remove_cruft rootdir [] s = s"
| "remove_cruft rootdir (c # cs) s = remove_cruft rootdir cs (snd (os_remove (join2 rootdir c) s))"

text \<open>\<open>Path.mkdir(parents=True, exist_ok=True)\<close>: an existing directory is accepted.
  (A missing parent would be created first; the parent here is the tree root, in which
  a directory has just been made, and a missing parent is an error here.)\<close>

definition path_mkdir :: "string \<Rightarrow> sys \<Rightarrow> unit outcome \<times> sys" where
  "path_mkdir p s =
     (case os_mkdir p 511 s of
        (Raise e, s1) \<Rightarrow>
          if e = OSError EEXIST \<and> os_path_isdir s1 p then (Return (), s1) else (Raise e, s1)
      | (Return u, s1) \<Rightarrow> (Return (), s1))"

text \<open>
  \<^verbatim>\<open>
    try:
        rootdir.joinpath("ostree").mkdir(parents=True, exist_ok=True)
        rootdir.joinpath("sysroot").mkdir(parents=True, exist_ok=True)
    except OSError:
        pass
  \<close>
\<close>

definition make_mountpoints :: "string \<Rightarrow> sys \<Rightarrow> sys" where
  "make_mountpoints rootdir s =
     (case path_mkdir (join2 rootdir ''ostree'') s of
        (Raise e, s1) \<Rightarrow> s1
      | (Return u, s1) \<Rightarrow> snd (path_mkdir (join2 rootdir ''sysroot'') s1))"

text \<open>
  \<^verbatim>\<open>
    for l, t in TOPLEVEL_LINKS.items():
        shutil.rmtree(rootdir.joinpath(l))
        os.symlink(t, l, dir_fd=fd)
  \<close>
\<close>

fun build_links :: "string \<Rightarrow> path \<Rightarrow> (string \<times> string) list \<Rightarrow> sys \<Rightarrow> unit outcome \<times> sys" where
  "build_links rootdir fd [] s = (Return (), s)"
| "build_links rootdir fd ((l, t) # rest) s =
     (case shutil_rmtree (join2 rootdir l) s of
        (Raise e, s1) \<Rightarrow> (Raise e, s1)
      | (Return u, s1) \<Rightarrow>
          (case os_symlink_at t l fd s1 of
             (Raise e, s2) \<Rightarrow> (Raise e, s2)
           | (Return u, s2) \<Rightarrow> build_links rootdir fd rest s2))"

definition toplevel_symlinks :: "string \<Rightarrow> sys \<Rightarrow> unit outcome \<times> sys" where
  "toplevel_symlinks rootdir s =
     (case os_open_dir rootdir s of
        Raise e \<Rightarrow> (Raise e, s)
      | Return fd \<Rightarrow> build_links rootdir fd TOPLEVEL_LINKS s)"

text \<open>\<open>convert_to_ostree\<close>, after the call of \<open>sanitize_usr_symlinks\<close>.\<close>

definition convert_rest :: "string \<Rightarrow> sys \<Rightarrow> unit outcome \<times> sys" where
  "convert_rest rootdir s =
     (case relocate_var rootdir s of
        (Raise e, s1) \<Rightarrow> (Raise e, s1)
      | (Return u, s1) \<Rightarrow>
          let s2 = mark CruftRemoved (remove_cruft rootdir CRUFT (mark MutableRelocated s1)) in
          (case shutil_move (join2 rootdir ''etc'') (join2 rootdir ''usr'') s2 of
             (Raise e, s3) \<Rightarrow> (Raise e, s3)
           | (Return u, s3) \<Rightarrow>
               let s4 = mark MountpointsCreated (make_mountpoints rootdir (mark ConfigRelocated s3)) in
               (case toplevel_symlinks rootdir s4 of
                  (Raise e, s5) \<Rightarrow> (Raise e, s5)
                | (Return u, s5) \<Rightarrow> (Return (), mark TopLevelLinksBuilt s5))))"

definition convert_to_ostree :: "string \<Rightarrow> sys \<Rightarrow> (unit outcome \<times> sys) option" where
  "convert_to_ostree rootdir s =
     (case sanitize_usr_symlinks rootdir s of
        None \<Rightarrow> None
      | Some (Raise e, s1) \<Rightarrow> Some (Raise e, s1)
      | Some (Return u, s1) \<Rightarrow> Some (convert_rest rootdir (mark SymlinksSanitized s1)))"

text \<open>
  \<^verbatim>\<open>
    def create_ostree(self, rootdir):
        self.setup_boot(rootdir, rootdir.joinpath("boot"), rootdir.joinpath("usr/lib/modules"))
        self.create_tmpfile_dir(rootdir)
        self.convert_to_ostree(rootdir)
  \<close>
\<close>

definition create_ostree :: "string \<Rightarrow> package list \<Rightarrow> sys \<Rightarrow> (unit outcome \<times> sys) option" where
  "create_ostree rootdir cache s =
     (case setup_boot rootdir (join2 rootdir ''boot'') (join2 rootdir ''usr/lib/modules'') s of
        (Raise e, s1) \<Rightarrow> Some (Raise e, s1)
      | (Return u, s1) \<Rightarrow>
          (case create_tmpfile_dir rootdir cache (mark BootSetup s1) of
             (Raise e, s2) \<Rightarrow> Some (Raise e, s2)
           | (Return u, s2) \<Rightarrow> convert_to_ostree rootdir (mark TmpfilesWritten s2)))"


section \<open>Vocabulary of the properties\<close>

text \<open>The classes of boot entries, by the prefixes \<open>setup_boot\<close> tests.\<close>

definition is_kernel :: "string \<Rightarrow> bool" where
  "is_kernel item = startswith item ''vmlinuz''"

definition is_initrd :: "string \<Rightarrow> bool" where
  "is_initrd item = (startswith item ''initrd.img'' \<or> startswith item ''initramfs'')"

definition is_dtbs :: "string \<Rightarrow> bool" where
  "is_dtbs item = startswith item ''dtbs''"

definition is_sysmap :: "string \<Rightarrow> bool" where
  "is_sysmap item = startswith item ''System.map''"

text \<open>
  Canonical paths. A plain name is what a directory entry can be called. \<open>abs_str d\<close>
  is the text of the absolute path with the components \<open>d\<close>. \<open>real_dir t d\<close>: every
  component of \<open>d\<close> is a plain name and a directory of \<open>t\<close> itself, not a symbolic
  link to one, so \<open>abs_str d\<close> resolves to \<open>d\<close>.
\<close>

definition plain_name :: "string \<Rightarrow> bool" where
  "plain_name n = (n \<noteq> [] \<and> n \<noteq> ''.'' \<and> n \<noteq> ''..'' \<and> CHR ''/'' \<notin> set n)"

definition abs_str :: "path \<Rightarrow> string" where
  "abs_str d = concat (map (\<lambda>c. CHR ''/'' # c) d)"

definition is_dir_at :: "tree \<Rightarrow> path \<Rightarrow> bool" where
  "is_dir_at t p = (case node_at t p of Some (Dir m) \<Rightarrow> True | _ \<Rightarrow> False)"

definition real_dir :: "tree \<Rightarrow> path \<Rightarrow> bool" where
  "real_dir t d = (list_all plain_name d \<and> list_all (is_dir_at t) (prefixes d))"

definition conf_name :: string where
  "conf_name = ''ostree-integration-autovar.conf''"

definition stage_order :: "stage list" where
  "stage_order = [BootSetup, TmpfilesWritten, SymlinksSanitized, MutableRelocated,
                  CruftRemoved, ConfigRelocated, MountpointsCreated, TopLevelLinksBuilt]"

text \<open>The entries of the fixed mapping whose name is a single component.\<close>

definition plain_links :: "(string \<times> string) list" where
  "plain_links = butlast TOPLEVEL_LINKS"

text \<open>
  The target the sanitizer computes for a link, and its decision to act on the link:
  the target is not under \<open>usr\<close> by the test on \<open>commonpath\<close>, and the top level
  of its path relative to the root is \<open>var\<close>. \<open>wd\<close> is the working directory.
\<close>

definition link_target :: "string \<Rightarrow> string \<Rightarrow> string \<Rightarrow> string" where
  "link_target rootdir base link =
     (if isabs link then join2 rootdir (drop 1 link) else join2 base link)"

definition classified_var :: "string \<Rightarrow> string \<Rightarrow> string \<Rightarrow> string \<Rightarrow> bool" where
  "classified_var wd rootdir base link =
     (case relpath wd (link_target rootdir base link) rootdir of
        Inl e \<Rightarrow> False
      | Inr rel \<Rightarrow>
          (case commonpath (link_target rootdir base link) (join2 rootdir ''usr'') of
             Inl e \<Rightarrow> False
           | Inr cp \<Rightarrow> cp \<noteq> join2 rootdir ''usr'' \<and> get_toplevel rel = Some ''var''))"

text \<open>\<open>copied u g b x y\<close>: \<open>y\<close> is what \<open>shutil.copytree(symlinks=True)\<close>, run by
  user \<open>u\<close> and group \<open>g\<close>, makes of \<open>x\<close>: the same kind of node, with the same
  permission bits, content and link text, owned by \<open>u\<close> and \<open>g\<close>; a file gets an
  inode numbered \<open>b\<close> or higher.\<close>

fun copied :: "nat \<Rightarrow> nat \<Rightarrow> nat \<Rightarrow> node \<Rightarrow> node \<Rightarrow> bool" where
  "copied u g b (Dir m) (Dir m') = (m' = Meta (mode m) u g)"
| "copied u g b (File m i d) (File m' i' d') = (m' = Meta (mode m) u g \<and> d' = d \<and> b \<le> i')"
| "copied u g b (Link l) (Link l') = (l' = l)"
| "copied u g b x y = False"

text \<open>Every entry of the table is named by plain names.\<close>

definition names_plain :: "tree \<Rightarrow> bool" where
  "names_plain t = list_all (\<lambda>e. list_all plain_name (fst e)) t"

text \<open>\<open>below t c\<close>: the table has an entry strictly below \<open>c\<close>.\<close>

definition below :: "tree \<Rightarrow> path \<Rightarrow> bool" where
  "below t c = list_ex (\<lambda>e. strict_prefix c (fst e)) t"

text \<open>What a record of the sanitizer says about the node now at the path.\<close>

definition fits :: "replacement \<Rightarrow> node option \<Rightarrow> bool" where
  "fits k x =
     (case k of
        Nothing \<Rightarrow> x = None
      | HardLink \<Rightarrow> (case x of Some (File m i d) \<Rightarrow> True | _ \<Rightarrow> False)
      | Copy \<Rightarrow> (case x of Some (Dir m) \<Rightarrow> True | _ \<Rightarrow> False))"

definition is_link_at :: "tree \<Rightarrow> path \<Rightarrow> bool" where
  "is_link_at t c = (case node_at t c of Some (Link l) \<Rightarrow> True | _ \<Rightarrow> False)"

text \<open>\<open>quiet t c\<close>: \<open>c\<close> names an entry (present or not) of a directory reached
  without symbolic links, and the entry is not a symbolic link.\<close>

definition quiet :: "tree \<Rightarrow> path \<Rightarrow> bool" where
  "quiet t c = (c \<noteq> [] \<and> real_dir t (butlast c) \<and> plain_name (last c) \<and> \<not> is_link_at t c)"

text \<open>The entries \<open>shutil.copytree\<close> adds for the directory at \<open>sc\<close> (with the
  metadata \<open>m\<close>) copied to \<open>dc\<close>.\<close>

definition copy_of :: "sys \<Rightarrow> path \<Rightarrow> meta \<Rightarrow> path \<Rightarrow> (path \<times> node) list" where
  "copy_of s sc m dc =
     copy_nodes (euid s) (egid s) (next_ino s)
       ((dc, Dir m) # map (\<lambda>e. (dc @ drop (length sc) (fst e), snd e))
                        (filter (\<lambda>e. strict_prefix sc (fst e)) (fs s)))"

text \<open>
  Invariants of the walk. \<open>outside x t t'\<close>: the tables \<open>t\<close> and \<open>t'\<close> agree on
  every path that is not \<open>x\<close> or below it. \<open>log_ok\<close>: every record of the sanitizer
  names a quiet entry, and the node there is what the record says. \<open>stack_ok\<close>: the
  directories still to visit are quiet entries.
\<close>

definition outside :: "path \<Rightarrow> tree \<Rightarrow> tree \<Rightarrow> bool" where
  "outside x t t' = (\<forall>q. \<not> prefix x q \<longrightarrow> node_at t' q = node_at t q)"

definition log_ok :: "tree \<Rightarrow> (string \<times> replacement) list \<Rightarrow> bool" where
  "log_ok t lg = (\<forall>e\<in>set lg. \<exists>c. fst e = abs_str c \<and> quiet t c \<and> fits (snd e) (node_at t c))"

definition stack_ok :: "tree \<Rightarrow> string list \<Rightarrow> bool" where
  "stack_ok t st = (\<forall>d\<in>set st. \<exists>c. d = abs_str c \<and> quiet t c)"


section \<open>Example trees\<close>

definition dir755 :: node where
  "dir755 = Dir (Meta 493 0 0)"

definition sys_of :: "tree \<Rightarrow> sys" where
  "sys_of t = \<lparr>fs = t, cwd = [], euid = 0, egid = 0, umask = 18, next_ino = 100, stages = [],
               replaced = []\<rparr>"



text \<open>A tree with the directory for tmpfiles configuration, without and with a
  configuration file left by an earlier build.\<close>

definition tmp_fresh :: sys where
  "tmp_fresh = sys_of
     [([''r''], dir755), ([''r'', ''usr''], dir755), ([''r'', ''usr'', ''lib''], dir755),
      ([''r'', ''usr'', ''lib'', ''tmpfiles.d''], dir755)]"

definition tmp_stale :: sys where
  "tmp_stale = sys_of
     [([''r''], dir755), ([''r'', ''usr''], dir755), ([''r'', ''usr'', ''lib''], dir755),
      ([''r'', ''usr'', ''lib'', ''tmpfiles.d''], dir755),
      ([''r'', ''usr'', ''lib'', ''tmpfiles.d'', ''ostree-integration-autovar.conf''],
       File (Meta 420 0 0) 7 ''L /var/old - - - - ../../usr/rootdirs/var/old'')]"

text \<open>A small root tree on which the whole pipeline runs to its end: one kernel
  image, the module directory of its version, the directories the pipeline moves or
  replaces.\<close>

definition pipeline_tree :: sys where
  "pipeline_tree = sys_of
     [([''r''], dir755), ([''r'', ''boot''], dir755), ([''r'', ''etc''], dir755),
      ([''r'', ''usr''], dir755), ([''r'', ''var''], dir755),
      ([''r'', ''home''], dir755), ([''r'', ''media''], dir755), ([''r'', ''mnt''], dir755),
      ([''r'', ''opt''], dir755), ([''r'', ''root''], dir755), ([''r'', ''srv''], dir755),
      ([''r'', ''usr'', ''local''], dir755), ([''r'', ''usr'', ''lib''], dir755),
      ([''r'', ''usr'', ''lib'', ''modules''], dir755),
      ([''r'', ''usr'', ''lib'', ''modules'', ''6.1''], dir755),
      ([''r'', ''boot'', ''vmlinuz-6.1''], File (Meta 420 0 0) 1 ''kernel'')]"

text \<open>The states this tree goes through in \<open>create_ostree\<close>.\<close>

definition sys_st :: "tree \<Rightarrow> stage list \<Rightarrow> sys" where
  "sys_st t st = \<lparr>fs = t, cwd = [], euid = 0, egid = 0, umask = 18, next_ino = 100, stages = st,
                  replaced = []\<rparr>"

definition pipeline_booted :: tree where
  "pipeline_booted =
     [([''r''], dir755), ([''r'', ''boot''], dir755), ([''r'', ''etc''], dir755),
      ([''r'', ''usr''], dir755), ([''r'', ''var''], dir755), ([''r'', ''home''], dir755),
      ([''r'', ''media''], dir755), ([''r'', ''mnt''], dir755), ([''r'', ''opt''], dir755),
      ([''r'', ''root''], dir755), ([''r'', ''srv''], dir755),
      ([''r'', ''usr'', ''local''], dir755), ([''r'', ''usr'', ''lib''], dir755),
      ([''r'', ''usr'', ''lib'', ''modules''], dir755),
      ([''r'', ''usr'', ''lib'', ''modules'', ''6.1''], dir755),
      ([''r'', ''usr'', ''lib'', ''modules'', ''6.1'', ''vmlinuz''], File (Meta 420 0 0) 1 ''kernel'')]"

definition pipeline_relocated :: tree where
  "pipeline_relocated =
     [([''r''], dir755), ([''r'', ''boot''], dir755), ([''r'', ''etc''], dir755),
      ([''r'', ''usr''], dir755), ([''r'', ''home''], dir755), ([''r'', ''media''], dir755),
      ([''r'', ''mnt''], dir755), ([''r'', ''opt''], dir755), ([''r'', ''root''], dir755),
      ([''r'', ''srv''], dir755), ([''r'', ''usr'', ''local''], dir755),
      ([''r'', ''usr'', ''lib''], dir755), ([''r'', ''usr'', ''lib'', ''modules''], dir755),
      ([''r'', ''usr'', ''lib'', ''modules'', ''6.1''], dir755),
      ([''r'', ''usr'', ''lib'', ''modules'', ''6.1'', ''vmlinuz''], File (Meta 420 0 0) 1 ''kernel''),
      ([''r'', ''usr'', ''rootdirs''], dir755),
      ([''r'', ''usr'', ''rootdirs'', ''var''], dir755), ([''r'', ''var''], dir755)]"

definition pipeline_config :: tree where
  "pipeline_config =
     [([''r''], dir755), ([''r'', ''boot''], dir755), ([''r'', ''usr'', ''etc''], dir755),
      ([''r'', ''usr''], dir755), ([''r'', ''home''], dir755), ([''r'', ''media''], dir755),
      ([''r'', ''mnt''], dir755), ([''r'', ''opt''], dir755), ([''r'', ''root''], dir755),
      ([''r'', ''srv''], dir755), ([''r'', ''usr'', ''local''], dir755),
      ([''r'', ''usr'', ''lib''], dir755), ([''r'', ''usr'', ''lib'', ''modules''], dir755),
      ([''r'', ''usr'', ''lib'', ''modules'', ''6.1''], dir755),
      ([''r'', ''usr'', ''lib'', ''modules'', ''6.1'', ''vmlinuz''], File (Meta 420 0 0) 1 ''kernel''),
      ([''r'', ''usr'', ''rootdirs''], dir755),
      ([''r'', ''usr'', ''rootdirs'', ''var''], dir755), ([''r'', ''var''], dir755)]"

definition pipeline_mounts :: tree where
  "pipeline_mounts =
     [([''r''], dir755), ([''r'', ''boot''], dir755), ([''r'', ''usr'', ''etc''], dir755),
      ([''r'', ''usr''], dir755), ([''r'', ''home''], dir755), ([''r'', ''media''], dir755),
      ([''r'', ''mnt''], dir755), ([''r'', ''opt''], dir755), ([''r'', ''root''], dir755),
      ([''r'', ''srv''], dir755), ([''r'', ''usr'', ''local''], dir755),
      ([''r'', ''usr'', ''lib''], dir755), ([''r'', ''usr'', ''lib'', ''modules''], dir755),
      ([''r'', ''usr'', ''lib'', ''modules'', ''6.1''], dir755),
      ([''r'', ''usr'', ''lib'', ''modules'', ''6.1'', ''vmlinuz''], File (Meta 420 0 0) 1 ''kernel''),
      ([''r'', ''usr'', ''rootdirs''], dir755),
      ([''r'', ''usr'', ''rootdirs'', ''var''], dir755), ([''r'', ''var''], dir755),
      ([''r'', ''ostree''], dir755), ([''r'', ''sysroot''], dir755)]"

definition pipeline_done :: tree where
  "pipeline_done =
     [([''r''], dir755), ([''r'', ''boot''], dir755), ([''r'', ''usr'', ''etc''], dir755),
      ([''r'', ''usr''], dir755), ([''r'', ''usr'', ''lib''], dir755),
      ([''r'', ''usr'', ''lib'', ''modules''], dir755),
      ([''r'', ''usr'', ''lib'', ''modules'', ''6.1''], dir755),
      ([''r'', ''usr'', ''lib'', ''modules'', ''6.1'', ''vmlinuz''], File (Meta 420 0 0) 1 ''kernel''),
      ([''r'', ''usr'', ''rootdirs''], dir755),
      ([''r'', ''usr'', ''rootdirs'', ''var''], dir755), ([''r'', ''var''], dir755),
      ([''r'', ''sysroot''], dir755), ([''r'', ''home''], Link ''var/home''),
      ([''r'', ''media''], Link ''run/media''), ([''r'', ''mnt''], Link ''var/mnt''),
      ([''r'', ''opt''], Link ''var/opt''), ([''r'', ''ostree''], Link ''sysroot/ostree''),
      ([''r'', ''root''], Link ''var/roothome''), ([''r'', ''srv''], Link ''var/srv''),
      ([''r'', ''usr'', ''local''], Link ''../var/usrlocal'')]"


text \<open>
  A tree for the sanitizer, in a host that has \<open>/var/lib\<close>. Under \<open>/r/usr\<close>:
  \<open>rel\<close>, a relative link to a file in \<open>/r/var\<close>; \<open>dirlink\<close>, a relative link to a
  directory in \<open>/r/var\<close>; \<open>f\<close>, \<open>d\<close> and \<open>gone\<close>, absolute links to a file, to a
  directory and to nothing in \<open>/r/var\<close>; \<open>hostdir\<close>, an absolute link to \<open>/var/lib\<close>,
  which is a directory in the host and does not exist in the tree. The directory
  \<open>/r/var/d\<close> and its content belong to user 7, the process runs as user 0.
\<close>

definition sanitize_tree :: sys where
  "sanitize_tree = sys_of
     [([''var''], dir755), ([''var'', ''lib''], dir755),
      ([''r''], dir755), ([''r'', ''usr''], dir755), ([''r'', ''var''], dir755),
      ([''r'', ''var'', ''f''], File (Meta 420 7 7) 3 ''data''),
      ([''r'', ''var'', ''d''], Dir (Meta 448 7 7)),
      ([''r'', ''var'', ''d'', ''g''], File (Meta 384 7 7) 4 ''secret''),
      ([''r'', ''var'', ''d'', ''back''], Link ''/var/f''),
      ([''r'', ''usr'', ''rel''], Link ''../var/f''),
      ([''r'', ''usr'', ''dirlink''], Link ''../var/d''),
      ([''r'', ''usr'', ''f''], Link ''/var/f''),
      ([''r'', ''usr'', ''d''], Link ''/var/d''),
      ([''r'', ''usr'', ''gone''], Link ''/var/gone''),
      ([''r'', ''usr'', ''hostdir''], Link ''/var/lib'')]"

text \<open>The same tree after \<open>sanitize_usr_symlinks\<close>.\<close>

definition sanitized_tree :: sys where
  "sanitized_tree =
     \<lparr>fs = [([''var''], dir755), ([''var'', ''lib''], dir755),
            ([''r''], dir755), ([''r'', ''usr''], dir755), ([''r'', ''var''], dir755),
            ([''r'', ''var'', ''f''], File (Meta 420 7 7) 3 ''data''),
            ([''r'', ''var'', ''d''], Dir (Meta 448 7 7)),
            ([''r'', ''var'', ''d'', ''g''], File (Meta 384 7 7) 4 ''secret''),
            ([''r'', ''var'', ''d'', ''back''], Link ''/var/f''),
            ([''r'', ''usr'', ''rel''], Link ''../var/f''),
            ([''r'', ''usr'', ''dirlink''], Link ''../var/d''),
            ([''r'', ''usr'', ''hostdir''], Link ''/var/lib''),
            ([''r'', ''usr'', ''f''], File (Meta 420 7 7) 3 ''data''),
            ([''r'', ''usr'', ''d''], Dir (Meta 448 0 0)),
            ([''r'', ''usr'', ''d'', ''g''], File (Meta 384 0 0) 100 ''secret''),
            ([''r'', ''usr'', ''d'', ''back''], Link ''/var/f'')],
      cwd = [], euid = 0, egid = 0, umask = 18, next_ino = 101, stages = [],
      replaced = [(''/r/usr/f'', HardLink), (''/r/usr/d'', Copy), (''/r/usr/gone'', Nothing)]\<rparr>"

section \<open>Path texts\<close>

lemma split_on_notin: "c \<notin> set a \<Longrightarrow> split_on c a = [a]"
  by (induction a) auto

lemma split_on_append: "c \<notin> set a \<Longrightarrow> split_on c (a @ c # b) = a # split_on c b"
  by (induction a) auto

lemma abs_str_Nil [simp]: "abs_str [] = []"
  by (simp add: abs_str_def)

lemma abs_str_Cons: "abs_str (c # d) = CHR ''/'' # c @ abs_str d"
  by (simp add: abs_str_def)

lemma abs_str_append: "abs_str (a @ b) = abs_str a @ abs_str b"
  by (simp add: abs_str_def)

lemma abs_str_snoc: "abs_str (d @ [n]) = abs_str d @ CHR ''/'' # n"
  by (simp add: abs_str_def)

lemma split_on_abs_aux:
  "CHR ''/'' \<notin> set x \<Longrightarrow> list_all (\<lambda>n. CHR ''/'' \<notin> set n) xs \<Longrightarrow>
   split_on CHR ''/'' (x @ abs_str xs) = x # xs"
proof (induction xs arbitrary: x)
  case Nil then show ?case by (simp add: split_on_notin)
next
  case (Cons y ys)
  then show ?case by (simp add: abs_str_Cons split_on_append)
qed

lemma split_on_abs_str:
  "list_all (\<lambda>n. CHR ''/'' \<notin> set n) d \<Longrightarrow> d \<noteq> [] \<Longrightarrow> split_on CHR ''/'' (abs_str d) = [] # d"
  using split_on_abs_aux[of "[]" d] by simp

lemma plain_name_noslash: "list_all plain_name d \<Longrightarrow> list_all (\<lambda>n. CHR ''/'' \<notin> set n) d"
  by (induction d) (auto simp: plain_name_def)

lemma abs_str_nonempty: "d \<noteq> [] \<Longrightarrow> abs_str d \<noteq> []"
  by (cases d) (simp_all add: abs_str_Cons)

lemma isabs_abs_str: "d \<noteq> [] \<Longrightarrow> isabs (abs_str d)"
  by (cases d) (simp_all add: abs_str_Cons isabs_def startswith_def)

lemma last_abs_str: "d \<noteq> [] \<Longrightarrow> list_all plain_name d \<Longrightarrow> last (abs_str d) \<noteq> CHR ''/''"
proof (induction d rule: rev_induct)
  case Nil then show ?case by simp
next
  case (snoc n d)
  then have "n \<noteq> []" "CHR ''/'' \<notin> set n" by (auto simp: plain_name_def)
  then have "last n \<noteq> CHR ''/''" using last_in_set[of n] by metis
  with \<open>n \<noteq> []\<close> show ?case by (simp add: abs_str_snoc)
qed

lemma join2_abs_str:
  "d \<noteq> [] \<Longrightarrow> list_all plain_name d \<Longrightarrow> b \<noteq> [] \<Longrightarrow> hd b \<noteq> CHR ''/'' \<Longrightarrow>
   join2 (abs_str d) b = abs_str d @ CHR ''/'' # b"
  using last_abs_str[of d] abs_str_nonempty[of d]
  by (cases b) (auto simp: join2_def startswith_def)

lemma join2_abs_name:
  "d \<noteq> [] \<Longrightarrow> list_all plain_name d \<Longrightarrow> plain_name n \<Longrightarrow>
   join2 (abs_str d) n = abs_str (d @ [n])"
  by (cases n) (auto simp: join2_abs_str abs_str_snoc plain_name_def)

section \<open>Resolution of canonical paths\<close>

lemma is_dir_at_root [simp]: "is_dir_at t []"
  by (simp add: is_dir_at_def node_at_def)

lemma real_dir_Nil [simp]: "real_dir t []"
  by (simp add: real_dir_def)

lemma real_dir_snoc:
  "real_dir t (d @ [n]) = (real_dir t d \<and> plain_name n \<and> is_dir_at t (d @ [n]))"
  by (auto simp: real_dir_def)

lemma real_dir_append: "real_dir t (a @ b) \<Longrightarrow> real_dir t a"
  by (induction b rule: rev_induct) (auto simp: real_dir_snoc simp flip: append_assoc)

lemma real_dir_is_dir: "real_dir t d \<Longrightarrow> is_dir_at t d"
  by (cases d rule: rev_cases) (auto simp: real_dir_snoc)

lemma real_dir_plain: "real_dir t d \<Longrightarrow> list_all plain_name d"
  by (simp add: real_dir_def)

lemma namei_step_dir:
  "plain_name c \<Longrightarrow> is_dir_at t (cur @ [c]) \<Longrightarrow>
   namei fuel t follow cur (c # cs) = namei fuel t follow (cur @ [c]) cs"
  by (auto simp: plain_name_def is_dir_at_def split: option.splits node.splits)

lemma namei_dirs:
  "real_dir t (cur @ cs) \<Longrightarrow> namei fuel t follow cur (cs @ rest) = namei fuel t follow (cur @ cs) rest"
proof (induction cs arbitrary: cur)
  case Nil then show ?case by simp
next
  case (Cons c cs)
  from Cons.prems have R: "real_dir t ((cur @ [c]) @ cs)" by simp
  from real_dir_append[OF R] have "plain_name c" "is_dir_at t (cur @ [c])"
    by (auto simp: real_dir_snoc)
  then have "namei fuel t follow cur (c # cs @ rest) = namei fuel t follow (cur @ [c]) (cs @ rest)"
    by (rule namei_step_dir)
  also have "\<dots> = namei fuel t follow ((cur @ [c]) @ cs) rest"
    using Cons.IH[OF R] .
  finally show ?case by simp
qed

lemma namei_last_nofollow:
  "plain_name n \<Longrightarrow> namei fuel t False d [n] =
     (case node_at t (d @ [n]) of None \<Rightarrow> Inl ENOENT | Some x \<Rightarrow> Inr (d @ [n]))"
  by (auto simp: plain_name_def split: option.splits node.splits)

lemma namei_last_follow:
  "plain_name n \<Longrightarrow> namei fuel t True d [n] =
     (case node_at t (d @ [n]) of
        None \<Rightarrow> Inl ENOENT
      | Some (Link l) \<Rightarrow>
          if l = [] then Inl ENOENT else if fuel = 0 then Inl ELOOP
          else namei (fuel - 1) t True (if isabs l then [] else d) (split_on CHR ''/'' l)
      | Some x \<Rightarrow> Inr (d @ [n]))"
  by (auto simp: plain_name_def split: option.splits node.splits)

declare namei.simps [simp del]

lemma resolve_abs_dir:
  "real_dir (fs s) d \<Longrightarrow> d \<noteq> [] \<Longrightarrow> resolve follow s (abs_str d) = Inr d"
  using namei_dirs[of "fs s" "[]" d 40 follow "[]"]
  by (simp add: resolve_def abs_str_nonempty isabs_abs_str split_on_abs_str
        plain_name_noslash real_dir_plain namei.simps)

lemma resolve_abs_last:
  "real_dir (fs s) d \<Longrightarrow> plain_name n \<Longrightarrow>
   resolve follow s (abs_str (d @ [n])) = namei 40 (fs s) follow d [n]"
  using namei_dirs[of "fs s" "[]" d 40 follow "[n]"]
  by (simp add: resolve_def abs_str_nonempty isabs_abs_str split_on_abs_str
        plain_name_noslash real_dir_plain plain_name_def namei.simps)

lemma resolve_entry_abs:
  assumes "real_dir (fs s) d" "plain_name n"
  shows "resolve_entry_from base s (abs_str (d @ [n])) = Inr (d @ [n])"
proof -
  have sp: "split_on CHR ''/'' (abs_str (d @ [n])) = ([] # d) @ [n]"
    using assms by (simp add: split_on_abs_str plain_name_noslash real_dir_plain plain_name_def)
  have nm: "namei 40 (fs s) True [] ([] # d) = Inr d"
    using namei_dirs[of "fs s" "[]" d 40 True "[]"] assms(1) by (simp add: namei.simps)
  from real_dir_is_dir[OF assms(1)] obtain m where m: "node_at (fs s) d = Some (Dir m)"
    by (auto simp: is_dir_at_def split: option.splits node.splits)
  show ?thesis
    unfolding resolve_entry_from_def Let_def sp butlast_snoc last_snoc
    using assms(2) nm m by (simp add: abs_str_nonempty isabs_abs_str plain_name_def)
qed

section \<open>Lookups after a change of the table\<close>

lemma map_of_filter_key:
  "map_of (filter (\<lambda>e. P (fst e)) t) q = (if P q then map_of t q else None)"
  by (induction t) auto

lemma node_at_remove_entry:
  "c \<noteq> [] \<Longrightarrow> node_at (remove_entry c t) q = (if q = c then None else node_at t q)"
  using map_of_filter_key[where P="\<lambda>k. k \<noteq> c" and t=t and q=q]
  by (cases "q = c") (simp_all add: node_at_def remove_entry_def)

lemma node_at_remove_subtree:
  "c \<noteq> [] \<Longrightarrow> node_at (remove_subtree c t) q = (if prefix c q then None else node_at t q)"
  using map_of_filter_key[where P="\<lambda>k. \<not> prefix c k" and t=t and q=q]
  by (auto simp: node_at_def remove_subtree_def)

lemma node_at_append:
  "c \<noteq> [] \<Longrightarrow> node_at (t @ [(c, x)]) q =
     (case node_at t q of Some v \<Rightarrow> Some v | None \<Rightarrow> if q = c then Some x else None)"
  by (auto simp: node_at_def map_add_def split: option.splits)

lemma is_dir_at_append:
  "is_dir_at t q \<Longrightarrow> is_dir_at (t @ es) q"
  by (auto simp: is_dir_at_def node_at_def map_add_def split: option.splits node.splits if_splits)

lemma real_dir_append_entries: "real_dir t d \<Longrightarrow> real_dir (t @ es) d"
  by (auto simp: real_dir_def list_all_iff is_dir_at_append)

lemma real_dir_remove_entry:
  "real_dir t d \<Longrightarrow> \<not> prefix c d \<Longrightarrow> c \<noteq> [] \<Longrightarrow> real_dir (remove_entry c t) d"
  by (auto simp: real_dir_def list_all_iff is_dir_at_def node_at_remove_entry 
           dest: prefix_order.trans)

lemma real_dir_remove_subtree:
  "real_dir t d \<Longrightarrow> \<not> prefix c d \<Longrightarrow> c \<noteq> [] \<Longrightarrow> real_dir (remove_subtree c t) d"
  by (auto simp: real_dir_def list_all_iff is_dir_at_def node_at_remove_subtree 
           dest: prefix_order.trans)

section \<open>Calls on canonical paths\<close>

lemma stat_nofollow_abs:
  "real_dir (fs s) d \<Longrightarrow> plain_name n \<Longrightarrow>
   stat_at False s (abs_str (d @ [n])) =
     (case node_at (fs s) (d @ [n]) of None \<Rightarrow> Inl ENOENT | Some x \<Rightarrow> Inr x)"
  by (simp add: stat_at_def resolve_abs_last namei_last_nofollow split: option.splits)

lemma stat_follow_abs_nolink:
  "real_dir (fs s) d \<Longrightarrow> plain_name n \<Longrightarrow> \<forall>l. node_at (fs s) (d @ [n]) \<noteq> Some (Link l) \<Longrightarrow>
   stat_at True s (abs_str (d @ [n])) =
     (case node_at (fs s) (d @ [n]) of None \<Rightarrow> Inl ENOENT | Some x \<Rightarrow> Inr x)"
  by (auto simp: stat_at_def resolve_abs_last namei_last_follow split: option.splits node.splits)

lemma os_remove_abs:
  "real_dir (fs s) d \<Longrightarrow> plain_name n \<Longrightarrow>
   os_remove (abs_str (d @ [n])) s =
     (case node_at (fs s) (d @ [n]) of
        None \<Rightarrow> (Raise (OSError ENOENT), s)
      | Some (Dir m) \<Rightarrow> (Raise (OSError EISDIR), s)
      | Some x \<Rightarrow> (Return (), s\<lparr>fs := remove_entry (d @ [n]) (fs s)\<rparr>))"
  by (simp add: os_remove_def resolve_entry_def resolve_entry_abs)

lemma write_file_abs_new:
  "real_dir (fs s) d \<Longrightarrow> plain_name n \<Longrightarrow> node_at (fs s) (d @ [n]) = None \<Longrightarrow>
   write_file (abs_str (d @ [n])) content s =
     (Return (),
      s\<lparr>fs := fs s @ [(d @ [n], File (Meta (new_mode s 438) (euid s) (egid s)) (next_ino s) content)],
        next_ino := Suc (next_ino s)\<rparr>)"
  by (simp add: write_file_def resolve_entry_abs)

section \<open>The tmpfiles configuration\<close>

lemma plain_conf_name: "plain_name conf_name"
  by (simp add: plain_name_def conf_name_def)

lemma tmpfile_conf_abs:
  "R \<noteq> [] \<Longrightarrow> list_all plain_name R \<Longrightarrow>
   tmpfile_conf (abs_str R) = abs_str ((R @ [''usr'', ''lib'', ''tmpfiles.d'']) @ [conf_name])"
  by (simp add: tmpfile_conf_def join2_abs_str abs_str_append abs_str_Cons conf_name_def)

lemma create_tmpfile_dir_writes:
  assumes R: "R \<noteq> []"
    and D: "real_dir (fs s) (R @ [''usr'', ''lib'', ''tmpfiles.d''])"
    and N: "node_at (fs s) (R @ [''usr'', ''lib'', ''tmpfiles.d'', conf_name]) = None
            \<or> (\<exists>m i c. node_at (fs s) (R @ [''usr'', ''lib'', ''tmpfiles.d'', conf_name]) = Some (File m i c))"
    and C: "collect_dirs cache \<noteq> []"
  shows "\<exists>s'. create_tmpfile_dir (abs_str R) cache s = (Return (), s')
     \<and> node_at (fs s') (R @ [''usr'', ''lib'', ''tmpfiles.d'', conf_name])
       = Some (File (Meta (new_mode s 438) (euid s) (egid s)) (next_ino s)
           (tmpfile_header @ concat (map tmpfile_line
              (filter (\<lambda>d. d \<notin> set var_base_dirs) (collect_dirs cache)))))"
proof -
  let ?D = "R @ [''usr'', ''lib'', ''tmpfiles.d'']"
  let ?c = "?D @ [conf_name]"
  let ?txt = "tmpfile_header @ concat (map tmpfile_line
              (filter (\<lambda>d. d \<notin> set var_base_dirs) (collect_dirs cache)))"
  have pl: "list_all plain_name R" using real_dir_append[OF D] by (simp add: real_dir_def)
  have conf: "tmpfile_conf (abs_str R) = abs_str (?D @ [conf_name])"
    using tmpfile_conf_abs[OF R pl] .
  have cne: "?c \<noteq> []" by simp
  from N show ?thesis
  proof
    assume none: "node_at (fs s) (R @ [''usr'', ''lib'', ''tmpfiles.d'', conf_name]) = None"
    then have none': "node_at (fs s) ?c = None" by simp
    have ex: "\<not> os_path_exists s (abs_str ?c)"
      using stat_follow_abs_nolink[OF D plain_conf_name] none'
      by (simp add: os_path_exists_def)
    have "create_tmpfile_dir (abs_str R) cache s = write_file (abs_str ?c) ?txt s"
      using C ex by (simp add: create_tmpfile_dir_def conf Let_def)
    also have "\<dots> = (Return (), s\<lparr>fs := fs s @ [(?c, File (Meta (new_mode s 438) (euid s) (egid s)) (next_ino s) ?txt)],
        next_ino := Suc (next_ino s)\<rparr>)"
      using write_file_abs_new[OF D plain_conf_name none'] .
    finally show ?thesis using none' by (simp add: node_at_append)
  next
    assume "\<exists>m i c. node_at (fs s) (R @ [''usr'', ''lib'', ''tmpfiles.d'', conf_name]) = Some (File m i c)"
    then obtain m i c where f: "node_at (fs s) ?c = Some (File m i c)" by auto
    have ex: "os_path_exists s (abs_str ?c)"
      using stat_follow_abs_nolink[OF D plain_conf_name] f
      by (simp add: os_path_exists_def)
    let ?s1 = "s\<lparr>fs := remove_entry ?c (fs s)\<rparr>"
    have rm: "os_remove (abs_str ?c) s = (Return (), ?s1)"
      using os_remove_abs[OF D plain_conf_name] f by simp
    have D1: "real_dir (fs ?s1) ?D"
      using real_dir_remove_entry[OF D, of ?c] by simp
    have none1: "node_at (fs ?s1) ?c = None" by (simp add: node_at_remove_entry)
    have "create_tmpfile_dir (abs_str R) cache s = write_file (abs_str ?c) ?txt ?s1"
      using C ex rm by (simp add: create_tmpfile_dir_def conf Let_def)
    also have "\<dots> = (Return (), ?s1\<lparr>fs := fs ?s1 @ [(?c, File (Meta (new_mode ?s1 438) (euid ?s1) (egid ?s1)) (next_ino ?s1) ?txt)],
        next_ino := Suc (next_ino ?s1)\<rparr>)"
      using write_file_abs_new[OF D1 plain_conf_name none1] .
    finally show ?thesis using none1 by (simp add: node_at_append new_mode_def)
  qed
qed


section \<open>Boot entries: the classification loop\<close>

lemma kernel_not_other:
  "is_kernel i \<Longrightarrow> \<not> is_initrd i \<and> \<not> is_dtbs i \<and> \<not> is_sysmap i"
  by (cases i) (auto simp: is_kernel_def is_initrd_def is_dtbs_def is_sysmap_def startswith_def)


lemma dtbs_not_sysmap:
  "is_dtbs i \<Longrightarrow> \<not> is_sysmap i"
  by (cases i) (auto simp: is_dtbs_def is_sysmap_def startswith_def)















section \<open>The tmpfiles configuration: claims\<close>

text \<open>
  C4 (amended). When the paths collected from the non-excluded packages that own
  \<open>/var\<close> itself, less the base directories, are exactly one path \<open>d\<close>, and the
  directory \<open>usr/lib/tmpfiles.d\<close> of the tree exists (the configuration file being
  absent or a regular file), \<open>create_tmpfile_dir\<close> writes the configuration file
  with two lines: the header comment and \<open>L d - - - - ../../usr/rootdirs d\<close>.
\<close>

theorem create_tmpfile_dir_one_rule:
  assumes "R \<noteq> []"
    and "real_dir (fs s) (R @ [''usr'', ''lib'', ''tmpfiles.d''])"
    and "node_at (fs s) (R @ [''usr'', ''lib'', ''tmpfiles.d'', conf_name]) = None
         \<or> (\<exists>m i c. node_at (fs s) (R @ [''usr'', ''lib'', ''tmpfiles.d'', conf_name]) = Some (File m i c))"
    and "filter (\<lambda>d. d \<notin> set var_base_dirs) (collect_dirs cache) = [d]"
  shows "fst (create_tmpfile_dir (abs_str R) cache s) = Return ()
     \<and> node_at (fs (snd (create_tmpfile_dir (abs_str R) cache s)))
          (R @ [''usr'', ''lib'', ''tmpfiles.d'', conf_name])
       = Some (File (Meta (new_mode s 438) (euid s) (egid s)) (next_ino s)
            (tmpfile_header @ ''L '' @ d @ '' - - - - ../../usr/rootdirs'' @ d @ nl))"
proof -
  from assms(4) have "collect_dirs cache \<noteq> []" by auto
  from create_tmpfile_dir_writes[OF assms(1,2,3) this] assms(4)
  show ?thesis by (auto simp: tmpfile_line_def)
qed

theorem create_tmpfile_dir_one_rule_witness:
  "real_dir (fs tmp_fresh) [''r'', ''usr'', ''lib'', ''tmpfiles.d'']
   \<and> node_at (fs tmp_fresh) [''r'', ''usr'', ''lib'', ''tmpfiles.d'', conf_name] = None
   \<and> filter (\<lambda>d. d \<notin> set var_base_dirs)
        (collect_dirs [(''foo'', [''/var'', ''/var/lib'', ''/var/lib/foo/data''])])
      = [''/var/lib/foo/data'']
   \<and> fst (create_tmpfile_dir ''/r'' [(''foo'', [''/var'', ''/var/lib'', ''/var/lib/foo/data''])]
            tmp_fresh) = Return ()
   \<and> node_at (fs (snd (create_tmpfile_dir ''/r''
          [(''foo'', [''/var'', ''/var/lib'', ''/var/lib/foo/data''])] tmp_fresh)))
        [''r'', ''usr'', ''lib'', ''tmpfiles.d'', conf_name]
      = Some (File (Meta 420 0 0) 100
          (''# Auto-genernated by apt-ostree'' @ [CHR 0x0A] @
           ''L /var/lib/foo/data - - - - ../../usr/rootdirs/var/lib/foo/data'' @ [CHR 0x0A]))"
proof -
  have h1: "[''r''] \<noteq> ([] :: path)" by simp
  have h2: "real_dir (fs tmp_fresh) ([''r''] @ [''usr'', ''lib'', ''tmpfiles.d''])" by code_simp
  have h3: "node_at (fs tmp_fresh) ([''r''] @ [''usr'', ''lib'', ''tmpfiles.d'', conf_name]) = None
         \<or> (\<exists>m i c. node_at (fs tmp_fresh) ([''r''] @ [''usr'', ''lib'', ''tmpfiles.d'', conf_name]) = Some (File m i c))"
    by (rule disjI1) code_simp
  have h3': "node_at (fs tmp_fresh) [''r'', ''usr'', ''lib'', ''tmpfiles.d'', conf_name] = None"
    by code_simp
  have h4: "filter (\<lambda>d. d \<notin> set var_base_dirs)
        (collect_dirs [(''foo'', [''/var'', ''/var/lib'', ''/var/lib/foo/data''])])
      = [''/var/lib/foo/data'']" by code_simp
  have a: "abs_str [''r''] = ''/r''" by code_simp
  have m: "new_mode tmp_fresh 438 = 420" "euid tmp_fresh = 0" "egid tmp_fresh = 0" "next_ino tmp_fresh = 100"
    by code_simp+
  have t: "tmpfile_header @ ''L '' @ ''/var/lib/foo/data'' @ '' - - - - ../../usr/rootdirs'' @ ''/var/lib/foo/data'' @ nl
    = ''# Auto-genernated by apt-ostree'' @ [CHR 0x0A] @
           ''L /var/lib/foo/data - - - - ../../usr/rootdirs/var/lib/foo/data'' @ [CHR 0x0A]"
    by (simp add: tmpfile_header_def nl_def)
  from create_tmpfile_dir_one_rule[OF h1 h2 h3 h4] h2 h3' h4
  show ?thesis unfolding a m t by simp
qed

text \<open>
  C4 as stated fails: the index in which \<open>foo\<close> owns \<open>/var/lib/foo/data\<close> and nothing
  else has exactly one path under \<open>/var\<close>, but \<open>foo\<close> does not own \<open>/var\<close> itself, so
  nothing is collected and no file is written.
\<close>

theorem create_tmpfile_dir_needs_var_owner:
  "''foo'' \<notin> set excluded_packages
   \<and> create_tmpfile_dir ''/r'' [(''foo'', [''/var/lib/foo/data''])] tmp_fresh = (Return (), tmp_fresh)
   \<and> node_at (fs tmp_fresh) [''r'', ''usr'', ''lib'', ''tmpfiles.d'', conf_name] = None"
  by code_simp

text \<open>
  C5 (amended). When no rule remains (the collected paths less the base directories
  are none): if nothing was collected at all, \<open>create_tmpfile_dir\<close> returns and
  changes nothing, so it writes no file and leaves an existing one in place; if
  something was collected (base directories only), it replaces the configuration
  file by one that holds the header comment alone.
\<close>

theorem create_tmpfile_dir_no_rule:
  assumes "filter (\<lambda>d. d \<notin> set var_base_dirs) (collect_dirs cache) = []"
  shows "(collect_dirs cache = [] \<longrightarrow> create_tmpfile_dir rootdir cache s = (Return (), s))
     \<and> (collect_dirs cache \<noteq> [] \<and> R \<noteq> []
          \<and> real_dir (fs s) (R @ [''usr'', ''lib'', ''tmpfiles.d''])
          \<and> (node_at (fs s) (R @ [''usr'', ''lib'', ''tmpfiles.d'', conf_name]) = None
              \<or> (\<exists>m i c. node_at (fs s) (R @ [''usr'', ''lib'', ''tmpfiles.d'', conf_name]) = Some (File m i c)))
        \<longrightarrow> fst (create_tmpfile_dir (abs_str R) cache s) = Return ()
            \<and> node_at (fs (snd (create_tmpfile_dir (abs_str R) cache s)))
                 (R @ [''usr'', ''lib'', ''tmpfiles.d'', conf_name])
               = Some (File (Meta (new_mode s 438) (euid s) (egid s)) (next_ino s) tmpfile_header))"
proof (intro conjI impI)
  assume "collect_dirs cache = []"
  then show "create_tmpfile_dir rootdir cache s = (Return (), s)"
    by (simp add: create_tmpfile_dir_def)
next
  assume a: "collect_dirs cache \<noteq> [] \<and> R \<noteq> []
          \<and> real_dir (fs s) (R @ [''usr'', ''lib'', ''tmpfiles.d''])
          \<and> (node_at (fs s) (R @ [''usr'', ''lib'', ''tmpfiles.d'', conf_name]) = None
              \<or> (\<exists>m i c. node_at (fs s) (R @ [''usr'', ''lib'', ''tmpfiles.d'', conf_name]) = Some (File m i c)))"
  from a have 1: "R \<noteq> []" and 2: "real_dir (fs s) (R @ [''usr'', ''lib'', ''tmpfiles.d''])"
    and 3: "node_at (fs s) (R @ [''usr'', ''lib'', ''tmpfiles.d'', conf_name]) = None
              \<or> (\<exists>m i c. node_at (fs s) (R @ [''usr'', ''lib'', ''tmpfiles.d'', conf_name]) = Some (File m i c))"
    and 4: "collect_dirs cache \<noteq> []" by blast+
  from create_tmpfile_dir_writes[OF 1 2 3 4] assms
  show "fst (create_tmpfile_dir (abs_str R) cache s) = Return ()" by auto
  from create_tmpfile_dir_writes[OF 1 2 3 4] assms
  show "node_at (fs (snd (create_tmpfile_dir (abs_str R) cache s)))
                 (R @ [''usr'', ''lib'', ''tmpfiles.d'', conf_name])
               = Some (File (Meta (new_mode s 438) (euid s) (egid s)) (next_ino s) tmpfile_header)"
    by auto
qed

theorem create_tmpfile_dir_no_rule_witness:
  "filter (\<lambda>d. d \<notin> set var_base_dirs) (collect_dirs [(''foo'', [''/usr/bin/foo''])]) = []
   \<and> collect_dirs [(''foo'', [''/usr/bin/foo''])] = []
   \<and> create_tmpfile_dir ''/r'' [(''foo'', [''/usr/bin/foo''])] tmp_stale = (Return (), tmp_stale)
   \<and> filter (\<lambda>d. d \<notin> set var_base_dirs) (collect_dirs [(''foo'', [''/var'', ''/var/lib''])]) = []
   \<and> collect_dirs [(''foo'', [''/var'', ''/var/lib''])] \<noteq> []
   \<and> real_dir (fs tmp_stale) [''r'', ''usr'', ''lib'', ''tmpfiles.d'']
   \<and> fst (create_tmpfile_dir ''/r'' [(''foo'', [''/var'', ''/var/lib''])] tmp_stale) = Return ()
   \<and> node_at (fs (snd (create_tmpfile_dir ''/r'' [(''foo'', [''/var'', ''/var/lib''])] tmp_stale)))
        [''r'', ''usr'', ''lib'', ''tmpfiles.d'', conf_name]
      = Some (File (Meta 420 0 0) 100 (''# Auto-genernated by apt-ostree'' @ [CHR 0x0A]))"
proof -
  have e1: "filter (\<lambda>d. d \<notin> set var_base_dirs) (collect_dirs [(''foo'', [''/usr/bin/foo''])]) = []"
    by code_simp
  have e2: "collect_dirs [(''foo'', [''/usr/bin/foo''])] = []" by code_simp
  have b1: "filter (\<lambda>d. d \<notin> set var_base_dirs) (collect_dirs [(''foo'', [''/var'', ''/var/lib''])]) = []"
    by code_simp
  have b2: "collect_dirs [(''foo'', [''/var'', ''/var/lib''])] \<noteq> []" by code_simp
  have h1: "[''r''] \<noteq> ([] :: path)" by simp
  have h2: "real_dir (fs tmp_stale) ([''r''] @ [''usr'', ''lib'', ''tmpfiles.d''])" by code_simp
  have h3: "\<exists>m i c. node_at (fs tmp_stale) ([''r''] @ [''usr'', ''lib'', ''tmpfiles.d'', conf_name]) = Some (File m i c)"
    by (intro exI[of _ "Meta 420 0 0"] exI[of _ 7] exI[of _ "''L /var/old - - - - ../../usr/rootdirs/var/old''"]) code_simp
  have a: "abs_str [''r''] = ''/r''" by code_simp
  have m: "new_mode tmp_stale 438 = 420" "euid tmp_stale = 0" "egid tmp_stale = 0" "next_ino tmp_stale = 100"
    by code_simp+
  have t: "tmpfile_header = ''# Auto-genernated by apt-ostree'' @ [CHR 0x0A]"
    by (simp add: tmpfile_header_def nl_def)
  from create_tmpfile_dir_no_rule[OF e1, where rootdir="''/r''" and s=tmp_stale] e2
  have p1: "create_tmpfile_dir ''/r'' [(''foo'', [''/usr/bin/foo''])] tmp_stale = (Return (), tmp_stale)"
    by blast
  from create_tmpfile_dir_no_rule[OF b1, where R="[''r'']" and s=tmp_stale] b2 h1 h2 h3
  have p2: "fst (create_tmpfile_dir (abs_str [''r'']) [(''foo'', [''/var'', ''/var/lib''])] tmp_stale) = Return ()
            \<and> node_at (fs (snd (create_tmpfile_dir (abs_str [''r'']) [(''foo'', [''/var'', ''/var/lib''])] tmp_stale)))
                 ([''r''] @ [''usr'', ''lib'', ''tmpfiles.d'', conf_name])
               = Some (File (Meta (new_mode tmp_stale 438) (euid tmp_stale) (egid tmp_stale)) (next_ino tmp_stale) tmpfile_header)"
    by blast
  from p1 p2 e1 e2 b1 b2 h2 show ?thesis unfolding a m t by simp
qed

text \<open>
  C5 as stated fails: with nothing collected, the configuration file of an earlier
  build stays where it was.
\<close>

theorem create_tmpfile_dir_keeps_stale_file:
  "filter (\<lambda>d. d \<notin> set var_base_dirs) (collect_dirs [(''foo'', [''/usr/bin/foo''])]) = []
   \<and> create_tmpfile_dir ''/r'' [(''foo'', [''/usr/bin/foo''])] tmp_stale = (Return (), tmp_stale)
   \<and> node_at (fs tmp_stale) [''r'', ''usr'', ''lib'', ''tmpfiles.d'', conf_name]
      = Some (File (Meta 420 0 0) 7 ''L /var/old - - - - ../../usr/rootdirs/var/old'')"
  by code_simp

section \<open>The order of the stages\<close>

declare open_write.simps [simp del]

lemma stages_os_remove: "os_remove p s = (r, s') \<Longrightarrow> stages s' = stages s"
  by (auto simp: os_remove_def split: sum.splits option.splits node.splits)

lemma stages_os_mkdir: "os_mkdir p md s = (r, s') \<Longrightarrow> stages s' = stages s"
  by (auto simp: os_mkdir_def split: sum.splits option.splits)

lemma stages_os_symlink_at: "os_symlink_at t l fd s = (r, s') \<Longrightarrow> stages s' = stages s"
  by (auto simp: os_symlink_at_def split: sum.splits option.splits if_splits)

lemma stages_os_link: "os_link a b s = (r, s') \<Longrightarrow> stages s' = stages s"
  by (auto simp: os_link_def split: sum.splits option.splits node.splits)

lemma stages_os_rename: "os_rename a b s = (r, s') \<Longrightarrow> stages s' = stages s"
  unfolding os_rename_def Let_def
  by (simp split: sum.splits option.splits node.splits if_splits prod.splits) auto

lemma stages_shutil_move: "shutil_move a b s = (r, s') \<Longrightarrow> stages s' = stages s"
  by (auto simp: shutil_move_def Let_def split: if_splits dest: stages_os_rename)

lemma stages_shutil_copytree: "shutil_copytree a b s = (r, s') \<Longrightarrow> stages s' = stages s"
  by (auto simp: shutil_copytree_def Let_def split: sum.splits option.splits node.splits if_splits)

lemma stages_shutil_rmtree: "shutil_rmtree p s = (r, s') \<Longrightarrow> stages s' = stages s"
  by (auto simp: shutil_rmtree_def split: sum.splits option.splits node.splits if_splits)

lemma stages_open_write: "open_write fuel base p c s = (r, s') \<Longrightarrow> stages s' = stages s"
proof (induction fuel arbitrary: base p)
  case 0
  then show ?case
    by (subst (asm) open_write.simps) (auto split: sum.splits option.splits node.splits)
next
  case (Suc k)
  from Suc.prems show ?case
    by (subst (asm) open_write.simps)
       (auto split: sum.splits option.splits node.splits dest: Suc.IH)
qed

lemma stages_write_file: "write_file p c s = (r, s') \<Longrightarrow> stages s' = stages s"
  unfolding write_file_def by (rule stages_open_write)

lemma stages_noted: "noted p k x = (r, s') \<Longrightarrow> stages s' = stages (snd x)"
  by (cases x) (auto simp: noted_def split: outcome.splits)

lemma stages_sanitize_replace: "sanitize_replace p t s = (r, s') \<Longrightarrow> stages s' = stages s"
proof -
  assume A: "sanitize_replace p t s = (r, s')"
  obtain r1 s1 where 1: "os_remove p s = (r1, s1)" by (cases "os_remove p s")
  from stages_os_remove[OF 1] have s1: "stages s1 = stages s" .
  show ?thesis
  proof (cases r1)
    case (Raise e)
    with A 1 s1 show ?thesis by (simp add: sanitize_replace_def)
  next
    case (Return u)
    obtain r2 s2 where 2: "os_link t p s1 = (r2, s2)" by (cases "os_link t p s1")
    obtain r3 s3 where 3: "shutil_copytree t p s1 = (r3, s3)" by (cases "shutil_copytree t p s1")
    from stages_os_link[OF 2] s1 have a: "stages s2 = stages s" by simp
    from stages_shutil_copytree[OF 3] s1 have b: "stages s3 = stages s" by simp
    from A 1 Return 2 3 have "stages s' = stages s2 \<or> stages s' = stages s3 \<or> stages s' = stages s1"
      by (auto simp: sanitize_replace_def split: if_splits dest!: stages_noted)
    with s1 a b show ?thesis by auto
  qed
qed

lemma stages_exit_on_error: "exit_on_error x = (r, s') \<Longrightarrow> s' = snd x"
  by (cases x) (auto simp: exit_on_error_def split: outcome.splits)

lemma stages_sanitize_entry:
  assumes "sanitize_entry rootdir base name s = Some (r, s')"
  shows "stages s' = stages s"
proof -
  from assms have "s' = s \<or> (\<exists>t. s' = snd (sanitize_replace (join2 base name) t s))"
    by (auto simp: sanitize_entry_def Let_def
             split: if_splits outcome.splits sum.splits option.splits
             dest!: stages_exit_on_error)
  then show ?thesis
  proof
    assume "s' = s" then show ?thesis by simp
  next
    assume "\<exists>t. s' = snd (sanitize_replace (join2 base name) t s)"
    then obtain t where "s' = snd (sanitize_replace (join2 base name) t s)" by blast
    then show ?thesis
      using stages_sanitize_replace[of "join2 base name" t s]
      by (cases "sanitize_replace (join2 base name) t s") simp
  qed
qed

lemma stages_sanitize_files:
  "sanitize_files rootdir base names s = Some (r, s') \<Longrightarrow> stages s' = stages s"
proof (induction names arbitrary: s)
  case Nil then show ?case by simp
next
  case (Cons n names)
  from Cons.prems obtain r1 s1 where 1: "sanitize_entry rootdir base n s = Some (r1, s1)"
    by (cases "sanitize_entry rootdir base n s") auto
  from stages_sanitize_entry[OF 1] have s1: "stages s1 = stages s" .
  show ?case
  proof (cases r1)
    case (Raise e)
    with Cons.prems 1 s1 show ?thesis by simp
  next
    case (Return u)
    with Cons.prems 1 have "sanitize_files rootdir base names s1 = Some (r, s')" by simp
    from Cons.IH[OF this] s1 show ?thesis by simp
  qed
qed

lemma stages_walk_loop:
  assumes "walk_loop rootdir stack s = Some y"
  shows "stages (snd y) = stages s"
  using assms
proof (induction rootdir stack s y rule: walk_loop.raw_induct[rotated, consumes 1])
  case (1 walk rootdir stack s y)
  note IH = 1(1) and body = 1(2)
  show ?case
  proof (cases stack)
    case Nil
    with body show ?thesis by auto
  next
    case (Cons topdir rest)
    show ?thesis
    proof (cases "scandir s topdir")
      case (Inl e)
      with Cons body have "walk rootdir rest s = Some y" by simp
      then show ?thesis by (rule IH)
    next
      case (Inr df)
      obtain dirs files where df: "df = (dirs, files)" by (cases df)
      show ?thesis
      proof (cases "sanitize_files rootdir topdir files s")
        case None
        with Cons Inr df body show ?thesis by simp
      next
        case (Some rs)
        obtain r s1 where rs: "rs = (r, s1)" by (cases rs)
        from Some rs have s1: "stages s1 = stages s" by (auto dest: stages_sanitize_files)
        show ?thesis
        proof (cases r)
          case (Raise e)
          with Cons Inr df Some rs body s1 show ?thesis by auto
        next
          case (Return u)
          with Cons Inr df Some rs body
          have "walk rootdir (filter (\<lambda>d. \<not> os_path_islink s1 d) (map (join2 topdir) dirs) @ rest) s1 = Some y"
            by simp
          from IH[OF this] s1 show ?thesis by simp
        qed
      qed
    qed
  qed
qed

lemma stages_sanitize_usr_symlinks:
  "sanitize_usr_symlinks rootdir s = Some (r, s') \<Longrightarrow> stages s' = stages s"
  using stages_walk_loop[of rootdir _ s "(r, s')"] by (simp add: sanitize_usr_symlinks_def)

lemma stages_boot_item: "boot_item b t i a s = (r, s') \<Longrightarrow> stages s' = stages s"
proof -
  assume A: "boot_item b t i a s = (r, s')"
  then have "s' = s \<or> s' = snd (shutil_move (join2 b i) t s)"
    by (auto simp: boot_item_def split: if_splits list.splits)
  then show ?thesis
    using stages_shutil_move[of "join2 b i" t s]
    by (cases "shutil_move (join2 b i) t s") auto
qed

lemma stages_boot_loop: "boot_loop b t items a s = (r, s') \<Longrightarrow> stages s' = stages s"
proof (induction items arbitrary: a s)
  case Nil then show ?case by simp
next
  case (Cons i items)
  obtain r1 s1 where 1: "boot_item b t i a s = (r1, s1)" by (cases "boot_item b t i a s")
  from stages_boot_item[OF 1] have s1: "stages s1 = stages s" .
  show ?case
  proof (cases r1)
    case (Raise e)
    with Cons.prems 1 s1 show ?thesis by simp
  next
    case (Return a1)
    with Cons.prems 1 have "boot_loop b t items a1 s1 = (r, s')" by simp
    from Cons.IH[OF this] s1 show ?thesis by simp
  qed
qed

lemma stages_rename_or_exit: "rename_or_exit b n t v new s = (r, s') \<Longrightarrow> stages s' = stages s"
proof (cases v)
  case None
  assume "rename_or_exit b n t v new s = (r, s')"
  with None show ?thesis by (simp add: rename_or_exit_def exit_on_error_def)
next
  case (Some ver)
  assume "rename_or_exit b n t v new s = (r, s')"
  with Some have "s' = snd (os_rename (join2 b n) (path_join t [ver, new]) s)"
    by (auto simp: rename_or_exit_def dest: stages_exit_on_error)
  then show ?thesis using stages_os_rename[of "join2 b n" "path_join t [ver, new]" s]
    by (cases "os_rename (join2 b n) (path_join t [ver, new]) s") simp
qed

lemma stages_setup_boot:
  assumes A: "setup_boot r b t s = (res, s')"
  shows "stages s' = stages s"
proof -
  obtain r0 s1 where 0: "os_mkdir t 511 s = (r0, s1)" by (cases "os_mkdir t 511 s")
  from stages_os_mkdir[OF 0] have s1: "stages s1 = stages s" .
  show ?thesis
  proof (cases "os_listdir s1 b")
    case (Raise e)
    with A 0 s1 show ?thesis by (simp add: setup_boot_def)
  next
    case L: (Return items)
    obtain ra s2 where 2: "boot_loop b t items \<lparr>vmlinuz = None, initrd = None, dtbs = None, version = None\<rparr> s1 = (ra, s2)"
      by (cases "boot_loop b t items \<lparr>vmlinuz = None, initrd = None, dtbs = None, version = None\<rparr> s1")
    from stages_boot_loop[OF 2] s1 have s2: "stages s2 = stages s" by simp
    show ?thesis
    proof (cases ra)
      case (Raise e)
      with A 0 L 2 s2 show ?thesis by (simp add: setup_boot_def)
    next
      case (Return a)
      show ?thesis
      proof (cases "vmlinuz a")
        case None
        with A 0 L 2 Return s2 show ?thesis by (simp add: setup_boot_def)
      next
        case (Some k)
        obtain r3 s3 where 3: "rename_or_exit b k t (version a) ''vmlinuz'' s2 = (r3, s3)"
          by (cases "rename_or_exit b k t (version a) ''vmlinuz'' s2")
        from stages_rename_or_exit[OF 3] s2 have s3: "stages s3 = stages s" by simp
        show ?thesis
        proof (cases r3)
          case (Raise e)
          with A 0 L 2 Return Some 3 s3 show ?thesis by (simp add: setup_boot_def)
        next
          case R3: (Return u)
          show ?thesis
          proof (cases "initrd a")
            case None
            with A 0 L 2 Return Some 3 R3 s3 show ?thesis by (simp add: setup_boot_def)
          next
            case I: (Some i)
            with A 0 L 2 Return Some 3 R3
            have "rename_or_exit b i t (version a) ''initramfs.img'' s3 = (res, s')"
              by (simp add: setup_boot_def)
            from stages_rename_or_exit[OF this] s3 show ?thesis by simp
          qed
        qed
      qed
    qed
  qed
qed

lemma stages_create_tmpfile_dir:
  assumes A: "create_tmpfile_dir r c s = (res, s')"
  shows "stages s' = stages s"
proof (cases "collect_dirs c = []")
  case True
  with A show ?thesis by (simp add: create_tmpfile_dir_def)
next
  case False
  let ?conf = "tmpfile_conf r"
  obtain r1 s1 where R: "(if os_path_exists s ?conf then os_remove ?conf s else (Return (), s)) = (r1, s1)"
    by (cases "if os_path_exists s ?conf then os_remove ?conf s else (Return (), s)")
  then have s1: "stages s1 = stages s" by (auto split: if_splits dest: stages_os_remove)
  show ?thesis
  proof (cases r1)
    case (Raise e)
    with A False R s1 show ?thesis by (simp add: create_tmpfile_dir_def Let_def)
  next
    case (Return u)
    with A False R have "write_file ?conf (tmpfile_header @ concat (map tmpfile_line
              (filter (\<lambda>d. d \<notin> set var_base_dirs) (collect_dirs c)))) s1 = (res, s')"
      by (simp add: create_tmpfile_dir_def Let_def)
    then have "\<exists>txt. write_file ?conf txt s1 = (res, s')" by blast
    with s1 show ?thesis by (auto dest: stages_write_file)
  qed
qed

lemma stages_relocate_var:
  assumes A: "relocate_var r s = (res, s')"
  shows "stages s' = stages s"
proof -
  obtain r1 s1 where 1: "os_mkdir (join2 r ''usr/rootdirs'') 493 s = (r1, s1)"
    by (cases "os_mkdir (join2 r ''usr/rootdirs'') 493 s")
  obtain r2 s2 where 2: "shutil_copytree (join2 r ''var'') (join2 r ''usr/rootdirs/var'') s1 = (r2, s2)"
    by (cases "shutil_copytree (join2 r ''var'') (join2 r ''usr/rootdirs/var'') s1")
  obtain r3 s3 where 3: "shutil_rmtree (join2 r ''var'') s2 = (r3, s3)"
    by (cases "shutil_rmtree (join2 r ''var'') s2")
  obtain r4 s4 where 4: "os_mkdir (join2 r ''var'') 493 s3 = (r4, s4)"
    by (cases "os_mkdir (join2 r ''var'') 493 s3")
  from stages_os_mkdir[OF 1] have a: "stages s1 = stages s" .
  from stages_shutil_copytree[OF 2] a have b: "stages s2 = stages s" by simp
  from stages_shutil_rmtree[OF 3] b have c: "stages s3 = stages s" by simp
  from stages_os_mkdir[OF 4] c have d: "stages s4 = stages s" by simp
  from A 1 2 3 4 have "s' = s1 \<or> s' = s2 \<or> s' = s3 \<or> s' = s4"
    by (cases r1; cases r2; cases r3) (simp_all add: relocate_var_def)
  with a b c d show ?thesis by auto
qed

lemma stages_remove_cruft: "stages (remove_cruft r cs s) = stages s"
proof (induction cs arbitrary: s)
  case Nil show ?case by simp
next
  case (Cons c cs)
  obtain r1 s1 where 1: "os_remove (join2 r c) s = (r1, s1)" by (cases "os_remove (join2 r c) s")
  from stages_os_remove[OF 1] Cons[of s1] 1 show ?case by simp
qed

lemma stages_path_mkdir: "path_mkdir p s = (r, s') \<Longrightarrow> stages s' = stages s"
proof -
  assume A: "path_mkdir p s = (r, s')"
  obtain r1 s1 where 1: "os_mkdir p 511 s = (r1, s1)" by (cases "os_mkdir p 511 s")
  from A 1 have "s' = s1" by (cases r1) (auto simp: path_mkdir_def split: if_splits)
  with stages_os_mkdir[OF 1] show ?thesis by simp
qed

lemma stages_make_mountpoints: "stages (make_mountpoints r s) = stages s"
proof -
  obtain r1 s1 where 1: "path_mkdir (join2 r ''ostree'') s = (r1, s1)"
    by (cases "path_mkdir (join2 r ''ostree'') s")
  obtain r2 s2 where 2: "path_mkdir (join2 r ''sysroot'') s1 = (r2, s2)"
    by (cases "path_mkdir (join2 r ''sysroot'') s1")
  from stages_path_mkdir[OF 1] have a: "stages s1 = stages s" .
  from stages_path_mkdir[OF 2] a have b: "stages s2 = stages s" by simp
  show ?thesis using 1 2 a b by (cases r1) (simp_all add: make_mountpoints_def)
qed

lemma stages_build_links: "build_links r fd ls s = (res, s') \<Longrightarrow> stages s' = stages s"
proof (induction ls arbitrary: s)
  case Nil then show ?case by simp
next
  case (Cons lt ls)
  obtain l t where lt: "lt = (l, t)" by (cases lt)
  obtain r1 s1 where 1: "shutil_rmtree (join2 r l) s = (r1, s1)" by (cases "shutil_rmtree (join2 r l) s")
  obtain r2 s2 where 2: "os_symlink_at t l fd s1 = (r2, s2)" by (cases "os_symlink_at t l fd s1")
  from stages_shutil_rmtree[OF 1] have a: "stages s1 = stages s" .
  from stages_os_symlink_at[OF 2] a have b: "stages s2 = stages s" by simp
  show ?case
  proof (cases r1)
    case (Raise e)
    with Cons.prems lt 1 a show ?thesis by simp
  next
    case R1: (Return u)
    show ?thesis
    proof (cases r2)
      case (Raise e)
      with Cons.prems lt 1 R1 2 b show ?thesis by simp
    next
      case (Return u2)
      with Cons.prems lt 1 R1 2 have "build_links r fd ls s2 = (res, s')" by simp
      from Cons.IH[OF this] b show ?thesis by simp
    qed
  qed
qed

lemma stages_toplevel_symlinks: "toplevel_symlinks r s = (res, s') \<Longrightarrow> stages s' = stages s"
  by (cases "os_open_dir r s") (auto simp: toplevel_symlinks_def dest: stages_build_links)

lemma stages_mark [simp]: "stages (mark st s) = stages s @ [st]"
  by (simp add: mark_def)

lemma stages_convert_rest:
  "convert_rest r s = (res, s') \<Longrightarrow>
   \<exists>k. stages s' = stages s @ take k [MutableRelocated, CruftRemoved, ConfigRelocated, MountpointsCreated, TopLevelLinksBuilt]
      \<and> (res = Return () \<longrightarrow> k = 5)"
proof -
  assume A: "convert_rest r s = (res, s')"
  obtain r1 s1 where 1: "relocate_var r s = (r1, s1)" by (cases "relocate_var r s")
  from stages_relocate_var[OF 1] have a: "stages s1 = stages s" .
  show ?thesis
  proof (cases r1)
    case (Raise e)
    with A 1 a show ?thesis by (intro exI[of _ 0]) (auto simp: convert_rest_def)
  next
    case (Return u1)
    let ?s2 = "mark CruftRemoved (remove_cruft r CRUFT (mark MutableRelocated s1))"
    have b: "stages ?s2 = stages s @ [MutableRelocated, CruftRemoved]"
      using a by (simp add: stages_remove_cruft)
    obtain r3 s3 where 3: "shutil_move (join2 r ''etc'') (join2 r ''usr'') ?s2 = (r3, s3)"
      by (cases "shutil_move (join2 r ''etc'') (join2 r ''usr'') ?s2")
    from stages_shutil_move[OF 3] b have c: "stages s3 = stages s @ [MutableRelocated, CruftRemoved]"
      by simp
    show ?thesis
    proof (cases r3)
      case (Raise e)
      with A 1 Return 3 c show ?thesis
        by (intro exI[of _ 2]) (auto simp: convert_rest_def Let_def)
    next
      case R3: (Return u3)
      let ?s4 = "mark MountpointsCreated (make_mountpoints r (mark ConfigRelocated s3))"
      have d: "stages ?s4 = stages s @ [MutableRelocated, CruftRemoved, ConfigRelocated, MountpointsCreated]"
        using c by (simp add: stages_make_mountpoints)
      obtain r5 s5 where 5: "toplevel_symlinks r ?s4 = (r5, s5)" by (cases "toplevel_symlinks r ?s4")
      from stages_toplevel_symlinks[OF 5] d
      have e: "stages s5 = stages s @ [MutableRelocated, CruftRemoved, ConfigRelocated, MountpointsCreated]"
        by simp
      show ?thesis
      proof (cases r5)
        case (Raise e5)
        with A 1 Return 3 R3 5 e show ?thesis
          by (intro exI[of _ 4]) (auto simp: convert_rest_def Let_def)
      next
        case R5: (Return u5)
        with A 1 Return 3 R3 5 e show ?thesis
          by (intro exI[of _ 5]) (auto simp: convert_rest_def Let_def)
      qed
    qed
  qed
qed

lemma create_ostree_stages:
  assumes "create_ostree rootdir cache s = Some (res, s')"
  shows "\<exists>k. stages s' = stages s @ take k stage_order \<and> (res = Return () \<longrightarrow> k = 8)"
proof -
  let ?b = "join2 rootdir ''boot''" and ?t = "join2 rootdir ''usr/lib/modules''"
  obtain r1 s1 where 1: "setup_boot rootdir ?b ?t s = (r1, s1)" by (cases "setup_boot rootdir ?b ?t s")
  from stages_setup_boot[OF 1] have a: "stages s1 = stages s" .
  show ?thesis
  proof (cases r1)
    case (Raise e)
    with assms 1 a show ?thesis by (intro exI[of _ 0]) (auto simp: create_ostree_def)
  next
    case (Return u1)
    obtain r2 s2 where 2: "create_tmpfile_dir rootdir cache (mark BootSetup s1) = (r2, s2)"
      by (cases "create_tmpfile_dir rootdir cache (mark BootSetup s1)")
    from stages_create_tmpfile_dir[OF 2] a
    have b: "stages s2 = stages s @ [BootSetup]" by simp
    show ?thesis
    proof (cases r2)
      case (Raise e)
      with assms 1 Return 2 b show ?thesis
        by (intro exI[of _ 1]) (auto simp: create_ostree_def stage_order_def)
    next
      case R2: (Return u2)
      from assms 1 Return 2 R2
      have C: "convert_to_ostree rootdir (mark TmpfilesWritten s2) = Some (res, s')"
        by (simp add: create_ostree_def)
      then obtain r3 s3 where 3: "sanitize_usr_symlinks rootdir (mark TmpfilesWritten s2) = Some (r3, s3)"
        by (cases "sanitize_usr_symlinks rootdir (mark TmpfilesWritten s2)")
           (auto simp: convert_to_ostree_def)
      from stages_sanitize_usr_symlinks[OF 3] b
      have c: "stages s3 = stages s @ [BootSetup, TmpfilesWritten]" by simp
      show ?thesis
      proof (cases r3)
        case (Raise e)
        with C 3 c show ?thesis
          by (intro exI[of _ 2]) (auto simp: convert_to_ostree_def stage_order_def)
      next
        case R3: (Return u3)
        with C 3 have "convert_rest rootdir (mark SymlinksSanitized s3) = (res, s')"
          by (simp add: convert_to_ostree_def)
        from stages_convert_rest[OF this] obtain k where
          k: "stages s' = stages (mark SymlinksSanitized s3)
                @ take k [MutableRelocated, CruftRemoved, ConfigRelocated, MountpointsCreated, TopLevelLinksBuilt]"
          and k5: "res = Return () \<longrightarrow> k = 5" by blast
        from k c have "stages s' = stages s @ take (Suc (Suc (Suc k))) stage_order"
          by (simp add: stage_order_def)
        with k5 show ?thesis by (intro exI[of _ "Suc (Suc (Suc k))"]) auto
      qed
    qed
  qed
qed


text \<open>The run of the pipeline on the example tree, stage by stage.\<close>

lemma run_setup_boot:
  "setup_boot ''/r'' ''/r/boot'' ''/r/usr/lib/modules'' pipeline_tree = (Return (), sys_st pipeline_booted [])"
  by code_simp
lemma run_sanitize:
  "sanitize_usr_symlinks ''/r'' (sys_st pipeline_booted st) = Some (Return (), sys_st pipeline_booted st)"
  by code_simp
lemma run_relocate:
  "relocate_var ''/r'' (sys_st pipeline_booted st) = (Return (), sys_st pipeline_relocated st)"
  by code_simp
lemma run_cruft:
  "remove_cruft ''/r'' CRUFT (sys_st pipeline_relocated st) = sys_st pipeline_relocated st"
  by code_simp
lemma run_move:
  "shutil_move ''/r/etc'' ''/r/usr'' (sys_st pipeline_relocated st) = (Return (), sys_st pipeline_config st)"
  by code_simp
lemma run_mounts:
  "make_mountpoints ''/r'' (sys_st pipeline_config st) = sys_st pipeline_mounts st"
  by code_simp
lemma run_links:
  "toplevel_symlinks ''/r'' (sys_st pipeline_mounts st) = (Return (), sys_st pipeline_done st)"
  by code_simp

lemma mark_sys_st: "mark x (sys_st t st) = sys_st t (st @ [x])"
  by (simp add: mark_def sys_st_def)

lemma run_pipeline:
  "create_ostree ''/r'' [] pipeline_tree = Some (Return (), sys_st pipeline_done stage_order)"
proof -
  have j: "join2 ''/r'' ''boot'' = ''/r/boot''" "join2 ''/r'' ''usr/lib/modules'' = ''/r/usr/lib/modules''"
    "join2 ''/r'' ''etc'' = ''/r/etc''" "join2 ''/r'' ''usr'' = ''/r/usr''"
    by (simp_all add: join2_def startswith_def)
  have t: "create_tmpfile_dir ''/r'' [] s = (Return (), s)" for s
    by (simp add: create_tmpfile_dir_def collect_dirs_def)
  show ?thesis
    by (simp add: create_ostree_def convert_to_ostree_def convert_rest_def j t run_setup_boot
          mark_sys_st run_sanitize run_relocate run_cruft run_move run_mounts run_links
          stage_order_def)
qed

text \<open>
  C6 (amended). In every run of \<open>create_ostree\<close> that ends, normally or with an
  exception, the stages completed are an initial part of the order
  boot set-up, tmpfiles written, symlinks sanitized, mutable state relocated, cruft
  removed, configuration relocated, mount points created, top-level links built; a
  run that returns has completed all eight, in this order.
\<close>


theorem create_ostree_stage_order:
  assumes "create_ostree rootdir cache s = Some (res, s')"
  shows "\<exists>k. stages s' = stages s @ take k stage_order \<and> (res = Return () \<longrightarrow> k = 8)"
  using assms by (rule create_ostree_stages)

theorem create_ostree_stage_order_witness:
  "create_ostree ''/r'' [] pipeline_tree = Some (Return (), sys_st pipeline_done stage_order)
   \<and> (\<exists>k. stages (sys_st pipeline_done stage_order) = stages pipeline_tree @ take k stage_order
          \<and> k = 8)"
  using create_ostree_stage_order[OF run_pipeline] run_pipeline by simp

text \<open>
  C6 as stated fails: on the example tree the pipeline runs to its end, and the first
  stage it completes is the boot set-up, the second the tmpfiles configuration; the
  sanitization of symlinks and the relocation of mutable state come after both, and
  the last stage is the building of the top-level links.
\<close>

theorem create_ostree_boot_setup_first:
  "create_ostree ''/r'' [] pipeline_tree = Some (Return (), sys_st pipeline_done stage_order)
   \<and> stages (sys_st pipeline_done stage_order)
       = [BootSetup, TmpfilesWritten, SymlinksSanitized, MutableRelocated, CruftRemoved,
          ConfigRelocated, MountpointsCreated, TopLevelLinksBuilt]
   \<and> SymlinksSanitized \<notin> set (takeWhile (\<lambda>x. x \<noteq> BootSetup) (stages (sys_st pipeline_done stage_order)))
   \<and> MutableRelocated \<notin> set (takeWhile (\<lambda>x. x \<noteq> BootSetup) (stages (sys_st pipeline_done stage_order)))
   \<and> last (stages (sys_st pipeline_done stage_order)) \<noteq> TmpfilesWritten"
  using run_pipeline by (simp add: sys_st_def stage_order_def)

section \<open>More on resolution\<close>

text \<open>Resolution only looks nodes up, so a successful resolution stays what it is when
  the table gains entries and loses none.\<close>

lemma namei_mono:
  "\<forall>q x. node_at t q = Some x \<longrightarrow> node_at t' q = Some x \<Longrightarrow>
   namei fuel t follow cur cs = Inr r \<Longrightarrow> namei fuel t' follow cur cs = Inr r"
proof (induction fuel t follow cur cs rule: namei.induct)
  case (1 fuel t follow cur)
  then show ?case by (simp add: namei.simps)
next
  case (2 fuel t follow cur c cs)
  show ?case
  proof (cases "c = [] \<or> c = ''.''")
    case True
    with 2 show ?thesis by (simp add: namei.simps)
  next
    case nd: False
    show ?thesis
    proof (cases "c = ''..''")
      case True
      with nd 2 show ?thesis by (simp add: namei.simps)
    next
      case npar: False
      show ?thesis
      proof (cases "node_at t (cur @ [c])")
        case None
        with nd npar "2.prems" show ?thesis by (simp add: namei.simps)
      next
        case (Some x)
        with "2.prems"(1) have x': "node_at t' (cur @ [c]) = Some x" by blast
        show ?thesis
        proof (cases x)
          case (Dir m)
          with nd npar Some x' 2 show ?thesis by (simp add: namei.simps)
        next
          case (File m i d)
          with nd npar Some x' 2 show ?thesis by (simp add: namei.simps split: if_splits)
        next
          case (Link l)
          show ?thesis
          proof (cases "cs = [] \<and> \<not> follow")
            case True
            with nd npar Some x' Link "2.prems" show ?thesis by (simp add: namei.simps)
          next
            case False
            with nd npar Some Link "2.prems" have l: "l \<noteq> []" "fuel \<noteq> 0"
              and r: "namei (fuel - 1) t follow (if isabs l then [] else cur) (split_on CHR ''/'' l @ cs) = Inr r"
              by (auto simp: namei.simps split: if_splits)
            from "2.IH"(4)[OF nd npar Some Link False l "2.prems"(1) r]
            show ?thesis using nd npar x' Link False l by (auto simp: namei.simps)
          qed
        qed
      qed
    qed
  qed
qed

text \<open>A path whose parent resolves to the directory \<open>d\<close>, with one more plain name
  that exists there: without following the last component, it resolves to that entry.\<close>

lemma namei_snoc_aux:
  "f \<Longrightarrow> namei fuel t f cur cs = Inr d \<Longrightarrow> is_dir_at t d \<Longrightarrow> plain_name n \<Longrightarrow>
   node_at t (d @ [n]) = Some x \<Longrightarrow> namei fuel t False cur (cs @ [n]) = Inr (d @ [n])"
proof (induction fuel t f cur cs rule: namei.induct)
  case (1 fuel t f cur)
  then have "cur = d" by (simp add: namei.simps)
  with 1 show ?case by (simp add: namei_last_nofollow)
next
  case (2 fuel t f cur c cs)
  show ?case
  proof (cases "c = [] \<or> c = ''.''")
    case True
    with 2 show ?thesis by (simp add: namei.simps)
  next
    case nd: False
    show ?thesis
    proof (cases "c = ''..''")
      case True
      with nd 2 show ?thesis by (simp add: namei.simps)
    next
      case npar: False
      show ?thesis
      proof (cases "node_at t (cur @ [c])")
        case None
        with nd npar "2.prems" show ?thesis by (simp add: namei.simps)
      next
        case (Some y)
        show ?thesis
        proof (cases y)
          case (Dir m)
          with nd npar Some 2 show ?thesis by (simp add: namei.simps)
        next
          case (File m i dd)
          with nd npar Some "2.prems" show ?thesis
            by (auto simp: namei.simps is_dir_at_def split: if_splits)
        next
          case (Link l)
          with nd npar Some "2.prems" have l: "l \<noteq> []" "fuel \<noteq> 0"
            and r: "namei (fuel - 1) t f (if isabs l then [] else cur) (split_on CHR ''/'' l @ cs) = Inr d"
            by (auto simp: namei.simps split: if_splits)
          have F: "\<not> (cs = [] \<and> \<not> f)" using "2.prems"(1) by simp
          from "2.IH"(4)[OF nd npar Some Link F l "2.prems"(1) r "2.prems"(3,4,5)]
          show ?thesis using nd npar Some Link l by (simp add: namei.simps)
        qed
      qed
    qed
  qed
qed

lemma namei_snoc_nofollow:
  "namei fuel t True cur cs = Inr d \<Longrightarrow> is_dir_at t d \<Longrightarrow> plain_name n \<Longrightarrow>
   node_at t (d @ [n]) = Some x \<Longrightarrow> namei fuel t False cur (cs @ [n]) = Inr (d @ [n])"
  using namei_snoc_aux[of True] by simp


section \<open>The top-level links\<close>

lemma shutil_rmtree_abs:
  "real_dir (fs s) D \<Longrightarrow> plain_name n \<Longrightarrow>
   shutil_rmtree (abs_str (D @ [n])) s =
     (case node_at (fs s) (D @ [n]) of
        None \<Rightarrow> (Raise (OSError ENOENT), s)
      | Some (Link l) \<Rightarrow> (Raise (OSError EINVAL), s)
      | Some (File m i d) \<Rightarrow> (Raise (OSError ENOTDIR), s)
      | Some (Dir m) \<Rightarrow> (Return (), s\<lparr>fs := remove_subtree (D @ [n]) (fs s)\<rparr>))"
  by (simp add: shutil_rmtree_def resolve_abs_last namei_last_nofollow
           split: option.splits node.splits)

lemma plain_not_abs: "plain_name l \<Longrightarrow> \<not> isabs l"
  by (cases l) (auto simp: plain_name_def isabs_def startswith_def)

lemma resolve_entry_plain:
  "real_dir (fs s) R \<Longrightarrow> plain_name l \<Longrightarrow> resolve_entry_from R s l = Inr (R @ [l])"
  using real_dir_is_dir[of "fs s" R]
  by (auto simp: resolve_entry_from_def split_on_notin plain_not_abs namei.simps plain_name_def
        is_dir_at_def split: option.splits node.splits)

lemma os_symlink_at_plain:
  "real_dir (fs s) R \<Longrightarrow> plain_name l \<Longrightarrow> t \<noteq> [] \<Longrightarrow>
   os_symlink_at t l R s =
     (case node_at (fs s) (R @ [l]) of
        Some n \<Rightarrow> (Raise (OSError EEXIST), s)
      | None \<Rightarrow> (Return (), s\<lparr>fs := fs s @ [(R @ [l], Link t)]\<rparr>))"
  using real_dir_is_dir[of "fs s" R]
  by (auto simp: os_symlink_at_def resolve_entry_plain is_dir_at_def
           split: option.splits node.splits)

lemma os_symlink_at_empty: "os_symlink_at [] l fd s = (Raise (OSError ENOENT), s)"
  by (simp add: os_symlink_at_def)

text \<open>One round of the loop for a plain name.\<close>

lemma build_links_step_plain:
  assumes R: "R \<noteq> []" "real_dir (fs s) R" and l: "plain_name l"
    and 1: "shutil_rmtree (join2 (abs_str R) l) s = (Return (), s1)"
    and 2: "os_symlink_at t l R s1 = (Return (), s2)"
  shows "fs s2 = remove_subtree (R @ [l]) (fs s) @ [(R @ [l], Link t)]"
proof -
  have j: "join2 (abs_str R) l = abs_str (R @ [l])"
    using join2_abs_name[OF R(1) real_dir_plain[OF R(2)] l] .
  from 1 have s1: "fs s1 = remove_subtree (R @ [l]) (fs s)"
    unfolding j shutil_rmtree_abs[OF R(2) l]
    by (auto split: option.splits node.splits)
  have R1: "real_dir (fs s1) R" unfolding s1
    using real_dir_remove_subtree[OF R(2), of "R @ [l]"] by simp
  have t: "t \<noteq> []" using 2 by (auto simp: os_symlink_at_empty)
  from 2 show ?thesis unfolding os_symlink_at_plain[OF R1 l t] s1
    by (auto split: option.splits)
qed

lemma node_at_step_plain:
  "R \<noteq> [] \<Longrightarrow> node_at (remove_subtree (R @ [l]) t @ [(R @ [l], Link x)]) q =
     (if q = R @ [l] then Some (Link x) else if prefix (R @ [l]) q then None else node_at t q)"
  by (auto simp: node_at_append node_at_remove_subtree split: option.splits)

lemma real_dir_step_plain:
  "real_dir t R \<Longrightarrow> real_dir (remove_subtree (R @ [l]) t @ [(R @ [l], Link x)]) R"
  using real_dir_remove_subtree[of t R "R @ [l]"] by (simp add: real_dir_append_entries)

lemma same_length_prefix: "prefix (R @ [a]) (R @ [b]) \<Longrightarrow> a = b"
  by simp

text \<open>The loop over plain, distinct names: the tree root stays what it is, every name
  of the list is a link to its target, and nothing outside these names changes.\<close>

lemma build_links_plain:
  assumes "R \<noteq> []" "real_dir (fs s) R"
    and "\<forall>e\<in>set ls. plain_name (fst e)" "distinct (map fst ls)"
    and "build_links (abs_str R) R ls s = (Return (), s')"
  shows "real_dir (fs s') R
     \<and> (\<forall>e\<in>set ls. node_at (fs s') (R @ [fst e]) = Some (Link (snd e)))
     \<and> (\<forall>q. (\<forall>e\<in>set ls. \<not> prefix (R @ [fst e]) q) \<longrightarrow> node_at (fs s') q = node_at (fs s) q)"
  using assms
proof (induction ls arbitrary: s)
  case Nil
  then show ?case by simp
next
  case (Cons e ls)
  obtain l t where e: "e = (l, t)" by (cases e)
  obtain r1 s1 where 1: "shutil_rmtree (join2 (abs_str R) l) s = (r1, s1)"
    by (cases "shutil_rmtree (join2 (abs_str R) l) s")
  obtain r2 s2 where 2: "os_symlink_at t l R s1 = (r2, s2)" by (cases "os_symlink_at t l R s1")
  from Cons.prems(5) e 1 have r1: "r1 = Return ()" by (cases r1) auto
  from Cons.prems(5) e 1 r1 2 have r2: "r2 = Return ()" by (cases r2) auto
  from Cons.prems(5) e 1 r1 2 r2 have rest: "build_links (abs_str R) R ls s2 = (Return (), s')"
    by simp
  from Cons.prems(3) e have pl: "plain_name l" by simp
  have fs2: "fs s2 = remove_subtree (R @ [l]) (fs s) @ [(R @ [l], Link t)]"
    using build_links_step_plain[OF Cons.prems(1,2) pl 1[unfolded r1] 2[unfolded r2]] .
  have R2: "real_dir (fs s2) R" unfolding fs2 using real_dir_step_plain[OF Cons.prems(2)] .
  from Cons.prems(3,4) have pls: "\<forall>e\<in>set ls. plain_name (fst e)" and dls: "distinct (map fst ls)"
    and lnot: "l \<notin> fst ` set ls" using e by auto
  note IH = Cons.IH[OF Cons.prems(1) R2 pls dls rest]
  have here: "node_at (fs s') (R @ [l]) = Some (Link t)"
  proof -
    have "\<forall>e\<in>set ls. \<not> prefix (R @ [fst e]) (R @ [l])" using lnot by auto
    with IH have "node_at (fs s') (R @ [l]) = node_at (fs s2) (R @ [l])" by blast
    then show ?thesis unfolding fs2 by (simp add: node_at_step_plain Cons.prems(1))
  qed
  have frame: "node_at (fs s') q = node_at (fs s) q"
    if q: "\<forall>e\<in>set (e # ls). \<not> prefix (R @ [fst e]) q" for q
  proof -
    from q IH have "node_at (fs s') q = node_at (fs s2) q" by simp
    also have "\<dots> = node_at (fs s) q" unfolding fs2 using q e
      by (auto simp: node_at_step_plain Cons.prems(1))
    finally show ?thesis .
  qed
  from IH here frame e show ?case by auto
qed

lemma build_links_append:
  "build_links rootdir fd (xs @ ys) s =
     (case build_links rootdir fd xs s of
        (Raise e, s1) \<Rightarrow> (Raise e, s1)
      | (Return u, s1) \<Rightarrow> build_links rootdir fd ys s1)"
proof (induction xs arbitrary: s)
  case Nil
  show ?case by simp
next
  case (Cons x xs)
  obtain l t where x: "x = (l, t)" by (cases x)
  show ?case using Cons.IH
    by (auto simp: x split: prod.splits outcome.splits)
qed

text \<open>The round for \<open>usr/local\<close>: \<open>usr\<close> is resolved as the tree has it (a
  directory, or a link that leads to one).\<close>

lemma split_usr_local: "split_on CHR ''/'' ''usr/local'' = [''usr'', ''local'']"
  by simp

lemma build_links_usr_local:
  assumes R: "R \<noteq> []" "real_dir (fs s) R"
    and 1: "shutil_rmtree (join2 (abs_str R) ''usr/local'') s = (Return (), s1)"
    and 2: "os_symlink_at t ''usr/local'' R s1 = (Return (), s2)"
  shows "real_dir (fs s2) R
     \<and> stat_at False s2 (join2 (abs_str R) ''usr/local'') = Inr (Link t)
     \<and> (\<forall>l x. node_at (fs s) (R @ [l]) = Some (Link x) \<longrightarrow> node_at (fs s2) (R @ [l]) = Some (Link x))"
proof -
  let ?p = "join2 (abs_str R) ''usr/local''"
  from 1 obtain c m where c: "resolve False s ?p = Inr c" "node_at (fs s) c = Some (Dir m)" "c \<noteq> []"
    and s1: "fs s1 = remove_subtree c (fs s)"
    by (auto simp: shutil_rmtree_def split: sum.splits option.splits node.splits if_splits)
  from 2 have fdok: "is_dir_at (fs s1) R"
    by (auto simp: os_symlink_at_def isabs_def startswith_def is_dir_at_def
             split: if_splits option.splits node.splits)
  have npre: "\<not> prefix c R"
  proof
    assume "prefix c R"
    then have "node_at (fs s1) R = None" unfolding s1 using c(3) by (simp add: node_at_remove_subtree)
    with fdok show False by (simp add: is_dir_at_def)
  qed
  have R1: "real_dir (fs s1) R" unfolding s1 using real_dir_remove_subtree[OF R(2) npre c(3)] .
  from 2 obtain c' where c': "resolve_entry_from R s1 ''usr/local'' = Inr c'"
    "node_at (fs s1) c' = None" and s2: "fs s2 = fs s1 @ [(c', Link t)]"
    by (auto simp: os_symlink_at_def split: if_splits sum.splits option.splits)
  from c'(1) obtain d where d: "namei 40 (fs s1) True R [''usr''] = Inr d" "is_dir_at (fs s1) d"
    and c'd: "c' = d @ [''local'']"
    by (auto simp: resolve_entry_from_def Let_def isabs_def startswith_def is_dir_at_def
             split: sum.splits option.splits node.splits if_splits)
  have c'ne: "c' \<noteq> []" using c'd by simp
  have mono: "\<forall>q x. node_at (fs s1) q = Some x \<longrightarrow> node_at (fs s2) q = Some x"
    unfolding s2 by (simp add: node_at_append c'ne)
  have R2: "real_dir (fs s2) R" unfolding s2 using R1 by (rule real_dir_append_entries)
  have d2: "namei 40 (fs s2) True R [''usr''] = Inr d" using namei_mono[OF mono d(1)] .
  have dd2: "is_dir_at (fs s2) d" unfolding s2 using d(2) by (rule is_dir_at_append)
  have n2: "node_at (fs s2) (d @ [''local'']) = Some (Link t)"
    unfolding s2 using c'(2) c'd by (simp add: node_at_append)
  have pl: "plain_name ''local''" by (simp add: plain_name_def)
  have res: "namei 40 (fs s2) False R ([''usr''] @ [''local'']) = Inr (d @ [''local''])"
    using namei_snoc_nofollow[OF d2 dd2 pl n2] .
  have p: "?p = abs_str R @ ''/usr/local''"
    using join2_abs_str[OF R(1) real_dir_plain[OF R(2)], of "''usr/local''"] by simp
  have sp: "split_on CHR ''/'' ?p = ([] # R) @ [''usr'', ''local'']"
    unfolding p using split_on_abs_aux[of "[]" "R @ [''usr'', ''local'']"]
      plain_name_noslash[OF real_dir_plain[OF R(2)]]
    by (simp add: abs_str_append abs_str_Cons)
  have "resolve False s2 ?p = namei 40 (fs s2) False [] (([] # R) @ [''usr'', ''local''])"
    unfolding resolve_def sp using p isabs_abs_str[OF R(1)] R(1)
    by (auto simp: isabs_def startswith_def abs_str_nonempty)
  also have "\<dots> = namei 40 (fs s2) False R [''usr'', ''local'']"
    using namei_dirs[of "fs s2" "[]" R 40 False "[''usr'', ''local'']"] R2
    by (simp add: namei.simps)
  finally have "resolve False s2 ?p = Inr (d @ [''local''])" using res by simp
  then have st: "stat_at False s2 ?p = Inr (Link t)" using n2 by (simp add: stat_at_def)
  have keep: "node_at (fs s2) (R @ [l]) = Some (Link x)"
    if q: "node_at (fs s) (R @ [l]) = Some (Link x)" for l x
  proof -
    have "\<not> prefix c (R @ [l])"
    proof
      assume "prefix c (R @ [l])"
      then have "prefix c R \<or> c = R @ [l]" by (auto simp: prefix_snoc)
      with npre have "c = R @ [l]" by simp
      with c(2) q show False by simp
    qed
    then have "node_at (fs s1) (R @ [l]) = Some (Link x)" unfolding s1 using q c(3)
      by (simp add: node_at_remove_subtree)
    with mono show ?thesis by blast
  qed
  from R2 st keep show ?thesis by blast
qed


lemma os_open_dir_abs: "R \<noteq> [] \<Longrightarrow> real_dir (fs s) R \<Longrightarrow> os_open_dir (abs_str R) s = Return R"
  using real_dir_is_dir[of "fs s" R]
  by (auto simp: os_open_dir_def resolve_abs_dir is_dir_at_def split: option.splits node.splits)

lemma toplevel_links_split:
  "TOPLEVEL_LINKS = plain_links @ [(''usr/local'', ''../var/usrlocal'')]"
  by (simp add: plain_links_def TOPLEVEL_LINKS_def)

lemma plain_links_plain: "\<forall>e\<in>set plain_links. plain_name (fst e)"
  by (simp add: plain_links_def TOPLEVEL_LINKS_def plain_name_def)

lemma plain_links_distinct: "distinct (map fst plain_links)"
  by (simp add: plain_links_def TOPLEVEL_LINKS_def)

lemma toplevel_symlinks_result:
  assumes R: "R \<noteq> []" "real_dir (fs s) R"
    and run: "toplevel_symlinks (abs_str R) s = (Return (), s')"
  shows "\<forall>e\<in>set TOPLEVEL_LINKS. stat_at False s' (join2 (abs_str R) (fst e)) = Inr (Link (snd e))"
proof -
  from run have bl: "build_links (abs_str R) R TOPLEVEL_LINKS s = (Return (), s')"
    by (simp add: toplevel_symlinks_def os_open_dir_abs[OF R])
  obtain r7 s7 where 7: "build_links (abs_str R) R plain_links s = (r7, s7)"
    by (cases "build_links (abs_str R) R plain_links s")
  from bl 7 have r7: "r7 = Return ()"
    unfolding toplevel_links_split build_links_append by (cases r7) auto
  from bl 7 r7
  have last: "build_links (abs_str R) R [(''usr/local'', ''../var/usrlocal'')] s7 = (Return (), s')"
    unfolding toplevel_links_split build_links_append by simp
  obtain r8 s8 where 8: "shutil_rmtree (join2 (abs_str R) ''usr/local'') s7 = (r8, s8)"
    by (cases "shutil_rmtree (join2 (abs_str R) ''usr/local'') s7")
  from last 8 have r8: "r8 = Return ()" by (cases r8) auto
  obtain r9 s9 where 9: "os_symlink_at ''../var/usrlocal'' ''usr/local'' R s8 = (r9, s9)"
    by (cases "os_symlink_at ''../var/usrlocal'' ''usr/local'' R s8")
  from last 8 r8 9 have r9: "r9 = Return ()" by (cases r9) auto
  from last 8 r8 9 r9 have s': "s' = s9" by simp
  note A = build_links_plain[OF R plain_links_plain plain_links_distinct 7[unfolded r7]]
  from A have R7: "real_dir (fs s7) R" by blast
  note B = build_links_usr_local[OF R(1) R7 8[unfolded r8] 9[unfolded r9]]
  from B have R9: "real_dir (fs s9) R" by blast
  show ?thesis
  proof
    fix e assume e: "e \<in> set TOPLEVEL_LINKS"
    show "stat_at False s' (join2 (abs_str R) (fst e)) = Inr (Link (snd e))"
    proof (cases "e \<in> set plain_links")
      case True
      with plain_links_plain have pl: "plain_name (fst e)" by blast
      from A True have "node_at (fs s7) (R @ [fst e]) = Some (Link (snd e))" by blast
      with B have n: "node_at (fs s9) (R @ [fst e]) = Some (Link (snd e))" by blast
      have "join2 (abs_str R) (fst e) = abs_str (R @ [fst e])"
        using join2_abs_name[OF R(1) real_dir_plain[OF R(2)] pl] .
      then show ?thesis unfolding s' using stat_nofollow_abs[OF R9 pl] n by simp
    next
      case False
      with e have "e = (''usr/local'', ''../var/usrlocal'')" unfolding toplevel_links_split by simp
      with B show ?thesis unfolding s' by simp
    qed
  qed
qed

text \<open>
  C7. Let the tree root be a canonical path (each component a directory of the host
  tree, none a symbolic link). After \<open>toplevel_symlinks\<close> has returned, for every
  entry \<open>(name, target)\<close> of the fixed mapping, \<open>lstat\<close> of \<open>name\<close> under the root
  finds a symbolic link, and its text is \<open>target\<close>.
\<close>

theorem toplevel_symlinks_links:
  assumes "R \<noteq> []" and "real_dir (fs s) R"
    and "toplevel_symlinks (abs_str R) s = (Return (), s')"
  shows "\<forall>e\<in>set TOPLEVEL_LINKS. stat_at False s' (join2 (abs_str R) (fst e)) = Inr (Link (snd e))"
  using assms by (rule toplevel_symlinks_result)

theorem toplevel_symlinks_links_witness:
  "real_dir (fs (sys_st pipeline_mounts [])) [''r'']
   \<and> toplevel_symlinks ''/r'' (sys_st pipeline_mounts []) = (Return (), sys_st pipeline_done [])
   \<and> stat_at False (sys_st pipeline_done []) ''/r/home'' = Inr (Link ''var/home'')
   \<and> stat_at False (sys_st pipeline_done []) ''/r/media'' = Inr (Link ''run/media'')
   \<and> stat_at False (sys_st pipeline_done []) ''/r/mnt'' = Inr (Link ''var/mnt'')
   \<and> stat_at False (sys_st pipeline_done []) ''/r/opt'' = Inr (Link ''var/opt'')
   \<and> stat_at False (sys_st pipeline_done []) ''/r/ostree'' = Inr (Link ''sysroot/ostree'')
   \<and> stat_at False (sys_st pipeline_done []) ''/r/root'' = Inr (Link ''var/roothome'')
   \<and> stat_at False (sys_st pipeline_done []) ''/r/srv'' = Inr (Link ''var/srv'')
   \<and> stat_at False (sys_st pipeline_done []) ''/r/usr/local'' = Inr (Link ''../var/usrlocal'')"
proof -
  have h1: "[''r''] \<noteq> ([] :: path)" by simp
  have h2: "real_dir (fs (sys_st pipeline_mounts [])) [''r'']" by code_simp
  have a: "abs_str [''r''] = ''/r''" by code_simp
  have h3: "toplevel_symlinks (abs_str [''r'']) (sys_st pipeline_mounts []) = (Return (), sys_st pipeline_done [])"
    unfolding a by (rule run_links)
  from toplevel_symlinks_links[OF h1 h2 h3]
  have "\<forall>e\<in>set TOPLEVEL_LINKS.
         stat_at False (sys_st pipeline_done []) (join2 ''/r'' (fst e)) = Inr (Link (snd e))"
    unfolding a .
  then show ?thesis using h2 h3 unfolding a
    by (simp add: TOPLEVEL_LINKS_def join2_def startswith_def)
qed

section \<open>The sanitizer: one entry\<close>

lemma os_path_islink_abs:
  "real_dir (fs s) D \<Longrightarrow> plain_name n \<Longrightarrow>
   os_path_islink s (abs_str (D @ [n])) = is_link_at (fs s) (D @ [n])"
  by (simp add: os_path_islink_def stat_nofollow_abs is_link_at_def split: option.splits node.splits)

lemma os_readlink_abs:
  "real_dir (fs s) D \<Longrightarrow> plain_name n \<Longrightarrow> node_at (fs s) (D @ [n]) = Some (Link l) \<Longrightarrow>
   os_readlink s (abs_str (D @ [n])) = Return l"
  by (simp add: os_readlink_def stat_nofollow_abs)

lemma os_link_abs:
  "real_dir (fs s) D \<Longrightarrow> plain_name n \<Longrightarrow>
   os_link target (abs_str (D @ [n])) s =
     (case stat_at True s target of
        Inl e \<Rightarrow> (Raise (OSError e), s)
      | Inr (File m i d) \<Rightarrow>
          (case node_at (fs s) (D @ [n]) of
             Some x \<Rightarrow> (Raise (OSError EEXIST), s)
           | None \<Rightarrow> (Return (), s\<lparr>fs := fs s @ [(D @ [n], File m i d)]\<rparr>))
      | Inr x \<Rightarrow> (Raise (OSError EPERM), s))"
  by (simp add: os_link_def resolve_entry_def resolve_entry_abs split: sum.splits node.splits)

lemma shutil_copytree_abs:
  "real_dir (fs s) D \<Longrightarrow> plain_name n \<Longrightarrow>
   shutil_copytree target (abs_str (D @ [n])) s =
     (case resolve True s target of
        Inl e \<Rightarrow> (Raise (OSError e), s)
      | Inr sc \<Rightarrow>
          (case node_at (fs s) sc of
             Some (Dir m) \<Rightarrow>
               (case node_at (fs s) (D @ [n]) of
                  Some x \<Rightarrow> (Raise (OSError EEXIST), s)
                | None \<Rightarrow>
                    if prefix sc (D @ [n]) then (Raise ShutilError, s)
                    else (Return (),
                          s\<lparr>fs := fs s @ copy_of s sc m (D @ [n]),
                            next_ino := next_ino s +
                              length (filter (\<lambda>e. is_file_node (snd e))
                                        (filter (\<lambda>e. strict_prefix sc (fst e)) (fs s)))\<rparr>))
           | _ \<Rightarrow> (Raise (OSError ENOTDIR), s)))"
  by (simp add: shutil_copytree_def resolve_entry_def resolve_entry_abs copy_of_def Let_def
           split: sum.splits option.splits node.splits)

lemma sanitize_entry_skip:
  "real_dir (fs s) D \<Longrightarrow> D \<noteq> [] \<Longrightarrow> plain_name n \<Longrightarrow> \<not> is_link_at (fs s) (D @ [n]) \<Longrightarrow>
   sanitize_entry rootdir (abs_str D) n s = Some (Return (), s)"
  by (simp add: sanitize_entry_def Let_def join2_abs_name real_dir_plain os_path_islink_abs)

lemma sanitize_entry_link:
  assumes "real_dir (fs s) D" "D \<noteq> []" "plain_name n" "node_at (fs s) (D @ [n]) = Some (Link link)"
  shows "sanitize_entry rootdir (abs_str D) n s =
     (case relpath (getcwd s) (link_target rootdir (abs_str D) link) rootdir of
        Inl e \<Rightarrow> Some (Raise e, s)
      | Inr rel \<Rightarrow>
          (case commonpath (link_target rootdir (abs_str D) link) (join2 rootdir ''usr'') of
             Inl e \<Rightarrow> Some (Raise e, s)
           | Inr cp \<Rightarrow>
               if cp = join2 rootdir ''usr'' then Some (Return (), s)
               else
                 (case get_toplevel rel of
                    None \<Rightarrow> None
                  | Some toplevel \<Rightarrow>
                      if toplevel \<noteq> ''var'' then Some (Return (), s)
                      else Some (exit_on_error
                             (sanitize_replace (abs_str (D @ [n]))
                                (link_target rootdir (abs_str D) link) s)))))"
proof -
  have j: "join2 (abs_str D) n = abs_str (D @ [n])"
    using join2_abs_name[OF assms(2) real_dir_plain[OF assms(1)] assms(3)] .
  have il: "os_path_islink s (abs_str (D @ [n]))"
    using os_path_islink_abs[OF assms(1,3)] assms(4) by (simp add: is_link_at_def)
  have rl: "os_readlink s (abs_str (D @ [n])) = Return link"
    using os_readlink_abs[OF assms(1,3,4)] .
  show ?thesis
    unfolding sanitize_entry_def Let_def j link_target_def using il rl
    by (cases "isabs link") simp_all
qed

lemma sanitize_entry_acts:
  assumes "real_dir (fs s) D" "D \<noteq> []" "plain_name n" "node_at (fs s) (D @ [n]) = Some (Link link)"
    and "classified_var (getcwd s) rootdir (abs_str D) link"
  shows "sanitize_entry rootdir (abs_str D) n s =
     Some (exit_on_error (sanitize_replace (abs_str (D @ [n]))
                            (link_target rootdir (abs_str D) link) s))"
  using assms(5) unfolding sanitize_entry_link[OF assms(1-4)] classified_var_def
  by (auto split: sum.splits option.splits)

text \<open>What the replacement does, for a link at a canonical path.\<close>

lemma sanitize_replace_abs:
  assumes D: "real_dir (fs s) D" "plain_name n" and L: "node_at (fs s) (D @ [n]) = Some (Link link)"
  shows "sanitize_replace (abs_str (D @ [n])) target s =
     (let s1 = s\<lparr>fs := remove_entry (D @ [n]) (fs s)\<rparr> in
      if os_path_isfile s1 target then noted (abs_str (D @ [n])) HardLink (os_link target (abs_str (D @ [n])) s1)
      else if os_path_isdir s1 target then noted (abs_str (D @ [n])) Copy (shutil_copytree target (abs_str (D @ [n])) s1)
      else noted (abs_str (D @ [n])) Nothing (Return (), s1))"
  by (simp add: sanitize_replace_def os_remove_abs[OF D] L Let_def)


section \<open>Copies\<close>

lemma copied_mono: "copied u g (Suc b) x y \<Longrightarrow> copied u g b x y"
  by (cases "(u, g, b, x, y)" rule: copied.cases) auto

lemma copy_nodes_lookup:
  "rel_option (copied u g i) (map_of es k) (map_of (copy_nodes u g i es) k)"
proof (induction u g i es rule: copy_nodes.induct)
  case (1 u g i)
  show ?case by simp
next
  case (2 u g i q m es)
  then show ?case by simp
next
  case (3 u g i q m j d es)
  have "rel_option (copied u g i) (map_of es k) (map_of (copy_nodes u g (Suc i) es) k)"
    using 3 by (rule option.rel_mono_strong) (rule copied_mono)
  then show ?case by simp
next
  case (4 u g i q l es)
  then show ?case by simp
qed

lemma map_of_rekey:
  "\<forall>e\<in>set es. prefix sc (fst e) \<Longrightarrow>
   map_of (map (\<lambda>e. (dc @ drop (length sc) (fst e), snd e)) es) (dc @ r) = map_of es (sc @ r)"
proof (induction es)
  case Nil
  show ?case by simp
next
  case (Cons e es)
  obtain a b where e: "e = (a, b)" by (cases e)
  from Cons.prems e obtain r' where r': "a = sc @ r'" by (auto simp: prefix_def)
  from Cons.prems have "\<forall>e\<in>set es. prefix sc (fst e)" by simp
  from Cons.IH[OF this] show ?case unfolding e r' by simp
qed

lemma map_of_below:
  "r \<noteq> [] \<Longrightarrow> map_of (filter (\<lambda>e. strict_prefix sc (fst e)) t) (sc @ r) = map_of t (sc @ r)"
  using map_of_filter_key[where P="\<lambda>k. strict_prefix sc k" and t=t and q="sc @ r"]
  by (simp add: strict_prefix_def)

lemma node_at_append_list:
  "q \<noteq> [] \<Longrightarrow> node_at (t @ es) q = (case node_at t q of Some v \<Rightarrow> Some v | None \<Rightarrow> map_of es q)"
  by (auto simp: node_at_def map_add_def split: option.splits)

lemma not_below_none:
  "\<not> below t c \<Longrightarrow> r \<noteq> [] \<Longrightarrow> node_at t (c @ r) = None"
proof -
  assume nb: "\<not> below t c" and r: "r \<noteq> []"
  have "map_of t (c @ r) = None"
  proof (rule ccontr)
    assume "map_of t (c @ r) \<noteq> None"
    then obtain x where "(c @ r, x) \<in> set t" by (auto dest: map_of_SomeD)
    moreover have "strict_prefix c (c @ r)" using r by (simp add: strict_prefix_def)
    ultimately have "below t c" by (force simp: below_def list_ex_iff)
    with nb show False by simp
  qed
  then show ?thesis using r by (simp add: node_at_def)
qed

text \<open>The copy of the directory at \<open>sc\<close>, put at the free place \<open>dc\<close>.\<close>

lemma copy_of_lookup:
  assumes dir: "node_at (fs s) sc = Some (Dir m)"
    and free: "\<forall>r. node_at (fs s) (dc @ r) = None" and dc: "dc \<noteq> []"
  shows "rel_option (copied (euid s) (egid s) (next_ino s))
           (node_at (fs s) (sc @ r)) (node_at (fs s @ copy_of s sc m dc) (dc @ r))"
proof (cases "r = []")
  case True
  have "node_at (fs s @ copy_of s sc m dc) dc = Some (Dir (Meta (mode m) (euid s) (egid s)))"
    using free[rule_format, of "[]"] dc by (simp add: node_at_append_list copy_of_def)
  with dir True show ?thesis by simp
next
  case False
  let ?bl = "filter (\<lambda>e. strict_prefix sc (fst e)) (fs s)"
  let ?mv = "map (\<lambda>e. (dc @ drop (length sc) (fst e), snd e)) ?bl"
  have pre: "\<forall>e\<in>set ?bl. prefix sc (fst e)" by (auto simp: strict_prefix_def)
  have "node_at (fs s @ copy_of s sc m dc) (dc @ r) = map_of (copy_of s sc m dc) (dc @ r)"
    using free[rule_format, of r] dc by (simp add: node_at_append_list)
  also have "\<dots> = map_of (copy_nodes (euid s) (egid s) (next_ino s) ?mv) (dc @ r)"
    using False by (simp add: copy_of_def)
  finally have a: "node_at (fs s @ copy_of s sc m dc) (dc @ r)
     = map_of (copy_nodes (euid s) (egid s) (next_ino s) ?mv) (dc @ r)" .
  have "map_of ?mv (dc @ r) = map_of ?bl (sc @ r)" using map_of_rekey[OF pre] .
  also have "\<dots> = map_of (fs s) (sc @ r)" using map_of_below[OF False] .
  also have "\<dots> = node_at (fs s) (sc @ r)" using False by (simp add: node_at_def)
  finally have b: "map_of ?mv (dc @ r) = node_at (fs s) (sc @ r)" .
  show ?thesis unfolding a b[symmetric] by (rule copy_nodes_lookup)
qed


section \<open>The three replacements\<close>

lemma real_dir_unlinked:
  "real_dir (fs s) D \<Longrightarrow> real_dir (fs (s\<lparr>fs := remove_entry (D @ [n]) (fs s)\<rparr>)) D"
  using real_dir_remove_entry[of "fs s" D "D @ [n]"] by simp

lemma sanitize_entry_file:
  assumes D: "real_dir (fs s) D" "D \<noteq> []" "plain_name n"
    and L: "node_at (fs s) (D @ [n]) = Some (Link link)"
    and C: "classified_var (getcwd s) rootdir (abs_str D) link"
    and F: "stat_at True (s\<lparr>fs := remove_entry (D @ [n]) (fs s)\<rparr>)
              (link_target rootdir (abs_str D) link) = Inr (File m i d)"
  shows "sanitize_entry rootdir (abs_str D) n s =
     Some (Return (), s\<lparr>fs := remove_entry (D @ [n]) (fs s) @ [(D @ [n], File m i d)],
                         replaced := replaced s @ [(abs_str (D @ [n]), HardLink)]\<rparr>)"
proof -
  let ?s1 = "s\<lparr>fs := remove_entry (D @ [n]) (fs s)\<rparr>"
  let ?t = "link_target rootdir (abs_str D) link"
  have D1: "real_dir (fs ?s1) D" using real_dir_unlinked[OF D(1)] .
  have isf: "os_path_isfile ?s1 ?t" using F by (simp add: os_path_isfile_def)
  have free: "node_at (fs ?s1) (D @ [n]) = None" by (simp add: node_at_remove_entry)
  have "os_link ?t (abs_str (D @ [n])) ?s1 = (Return (), ?s1\<lparr>fs := fs ?s1 @ [(D @ [n], File m i d)]\<rparr>)"
    unfolding os_link_abs[OF D1 D(3)] using F free by simp
  then have "sanitize_replace (abs_str (D @ [n])) ?t s =
     (Return (), s\<lparr>fs := remove_entry (D @ [n]) (fs s) @ [(D @ [n], File m i d)],
                         replaced := replaced s @ [(abs_str (D @ [n]), HardLink)]\<rparr>)"
    unfolding sanitize_replace_abs[OF D(1,3) L] Let_def using isf by (simp add: noted_def)
  then show ?thesis
    unfolding sanitize_entry_acts[OF D L C] by (simp add: exit_on_error_def)
qed

lemma sanitize_entry_dangling:
  assumes D: "real_dir (fs s) D" "D \<noteq> []" "plain_name n"
    and L: "node_at (fs s) (D @ [n]) = Some (Link link)"
    and C: "classified_var (getcwd s) rootdir (abs_str D) link"
    and N: "\<not> os_path_isfile (s\<lparr>fs := remove_entry (D @ [n]) (fs s)\<rparr>)
              (link_target rootdir (abs_str D) link)"
       "\<not> os_path_isdir (s\<lparr>fs := remove_entry (D @ [n]) (fs s)\<rparr>)
              (link_target rootdir (abs_str D) link)"
  shows "sanitize_entry rootdir (abs_str D) n s =
     Some (Return (), s\<lparr>fs := remove_entry (D @ [n]) (fs s),
                         replaced := replaced s @ [(abs_str (D @ [n]), Nothing)]\<rparr>)"
  unfolding sanitize_entry_acts[OF D L C] sanitize_replace_abs[OF D(1,3) L] Let_def
  using N by (simp add: noted_def exit_on_error_def)

lemma sanitize_entry_dir:
  assumes D: "real_dir (fs s) D" "D \<noteq> []" "plain_name n"
    and L: "node_at (fs s) (D @ [n]) = Some (Link link)"
    and C: "classified_var (getcwd s) rootdir (abs_str D) link"
    and R: "resolve True (s\<lparr>fs := remove_entry (D @ [n]) (fs s)\<rparr>)
              (link_target rootdir (abs_str D) link) = Inr sc"
       "node_at (remove_entry (D @ [n]) (fs s)) sc = Some (Dir m)"
       "\<not> prefix sc (D @ [n])"
    and B: "\<not> below (fs s) (D @ [n])"
  shows "\<exists>s'. sanitize_entry rootdir (abs_str D) n s = Some (Return (), s')
      \<and> replaced s' = replaced s @ [(abs_str (D @ [n]), Copy)]
      \<and> (\<forall>r. rel_option (copied (euid s) (egid s) (next_ino s))
                (node_at (remove_entry (D @ [n]) (fs s)) (sc @ r))
                (node_at (fs s') ((D @ [n]) @ r)))"
proof -
  let ?c = "D @ [n]"
  let ?s1 = "s\<lparr>fs := remove_entry ?c (fs s)\<rparr>"
  let ?t = "link_target rootdir (abs_str D) link"
  let ?s2 = "?s1\<lparr>fs := fs ?s1 @ copy_of ?s1 sc m ?c,
                  next_ino := next_ino ?s1 +
                     length (filter (\<lambda>e. is_file_node (snd e))
                               (filter (\<lambda>e. strict_prefix sc (fst e)) (fs ?s1)))\<rparr>"
  have D1: "real_dir (fs ?s1) D" using real_dir_unlinked[OF D(1)] .
  have st: "stat_at True ?s1 ?t = Inr (Dir m)" using R(1,2) by (simp add: stat_at_def)
  have isf: "\<not> os_path_isfile ?s1 ?t" using st by (simp add: os_path_isfile_def)
  have isd: "os_path_isdir ?s1 ?t" using st by (simp add: os_path_isdir_def)
  have free: "node_at (fs ?s1) (?c @ r) = None" for r
  proof (cases "r = []")
    case True
    then show ?thesis by (simp add: node_at_remove_entry)
  next
    case False
    then have "node_at (fs s) (?c @ r) = None" using not_below_none[OF B] by blast
    then show ?thesis using False by (simp add: node_at_remove_entry)
  qed
  have ct: "shutil_copytree ?t (abs_str ?c) ?s1 = (Return (), ?s2)"
    unfolding shutil_copytree_abs[OF D1 D(3)] using R free[of "[]"] by simp
  have "sanitize_replace (abs_str ?c) ?t s = (Return (), ?s2\<lparr>replaced := replaced s @ [(abs_str ?c, Copy)]\<rparr>)"
    unfolding sanitize_replace_abs[OF D(1,3) L] Let_def using isf isd ct by (simp add: noted_def)
  then have se: "sanitize_entry rootdir (abs_str D) n s =
      Some (Return (), ?s2\<lparr>replaced := replaced s @ [(abs_str ?c, Copy)]\<rparr>)"
    unfolding sanitize_entry_acts[OF D L C] by (simp add: exit_on_error_def)
  have dir1: "node_at (fs ?s1) sc = Some (Dir m)" using R(2) by simp
  have free1: "\<forall>r. node_at (fs ?s1) (?c @ r) = None" using free by blast
  have cp: "rel_option (copied (euid s) (egid s) (next_ino s))
              (node_at (remove_entry ?c (fs s)) (sc @ r))
              (node_at (fs ?s1 @ copy_of ?s1 sc m ?c) (?c @ r))" for r
    using copy_of_lookup[OF dir1 free1, of r] by simp
  show ?thesis
    by (rule exI[of _ "?s2\<lparr>replaced := replaced s @ [(abs_str ?c, Copy)]\<rparr>"])
       (use se cp in simp)
qed

section \<open>The sanitizer: what a step leaves alone\<close>

lemma quiet_not_under:
  assumes "is_link_at t x" "quiet t c"
  shows "\<not> prefix x c"
proof
  assume p: "prefix x c"
  from assms(2) have c: "c \<noteq> []" and rd: "real_dir t (butlast c)" and nl: "\<not> is_link_at t c"
    by (auto simp: quiet_def)
  show False
  proof (cases "x = c")
    case True
    with assms(1) nl show False by simp
  next
    case False
    with p c have "prefix x (butlast c)"
      by (metis append_butlast_last_id prefix_snoc)
    then have "x \<in> set (prefixes (butlast c))" by simp
    with rd have "is_dir_at t x" by (auto simp: real_dir_def list_all_iff)
    with assms(1) show False by (auto simp: is_dir_at_def is_link_at_def split: option.splits node.splits)
  qed
qed

lemma real_dir_outside:
  assumes "real_dir t D" "\<not> prefix x D" "outside x t t'"
  shows "real_dir t' D"
proof -
  have "is_dir_at t' q" if q: "prefix q D" for q
  proof -
    from q assms(2) have "\<not> prefix x q" using prefix_order.trans by blast
    with assms(3) have "node_at t' q = node_at t q" by (simp add: outside_def)
    moreover from assms(1) q have "is_dir_at t q" by (auto simp: real_dir_def list_all_iff)
    ultimately show ?thesis by (simp add: is_dir_at_def)
  qed
  with assms(1) show ?thesis by (auto simp: real_dir_def list_all_iff)
qed

lemma quiet_outside:
  assumes "quiet t c" "\<not> prefix x c" "outside x t t'"
  shows "quiet t' c \<and> node_at t' c = node_at t c"
proof -
  from assms(1) have c: "c \<noteq> []" and rd: "real_dir t (butlast c)" and pl: "plain_name (last c)"
    and nl: "\<not> is_link_at t c" by (auto simp: quiet_def)
  from assms(2,3) have same: "node_at t' c = node_at t c" by (simp add: outside_def)
  have "prefix (butlast c) c" using c by (metis append_butlast_last_id prefixI)
  with assms(2) have "\<not> prefix x (butlast c)" using prefix_order.trans by blast
  from real_dir_outside[OF rd this assms(3)] have "real_dir t' (butlast c)" .
  with c pl nl same show ?thesis by (simp add: quiet_def is_link_at_def)
qed

text \<open>Entries added at or below \<open>c\<close>, after the entry \<open>c\<close> itself was removed.\<close>

lemma outside_replace:
  assumes "c \<noteq> []" "\<forall>e\<in>set es. prefix c (fst e)"
  shows "outside c t (remove_entry c t @ es)"
  unfolding outside_def
proof (intro allI impI)
  fix q assume q: "\<not> prefix c q"
  show "node_at (remove_entry c t @ es) q = node_at t q"
  proof (cases "q = []")
    case True
    then show ?thesis by (simp add: node_at_def)
  next
    case False
    have "map_of es q = None"
    proof (rule ccontr)
      assume "map_of es q \<noteq> None"
      then obtain x where "(q, x) \<in> set es" by (auto dest: map_of_SomeD)
      with assms(2) have "prefix c q" by force
      with q show False by simp
    qed
    moreover from q have "q \<noteq> c" by auto
    ultimately show ?thesis using False assms(1)
      by (simp add: node_at_append_list node_at_remove_entry split: option.splits)
  qed
qed

lemma copy_nodes_keys: "map fst (copy_nodes u g i es) = map fst es"
  by (induction u g i es rule: copy_nodes.induct) simp_all

lemma copy_of_keys:
  "e \<in> set (copy_of s sc m dc) \<Longrightarrow>
   fst e = dc \<or> (\<exists>q\<in>fst ` set (fs s). prefix sc q \<and> fst e = dc @ drop (length sc) q)"
proof -
  assume "e \<in> set (copy_of s sc m dc)"
  then have "fst e \<in> set (map fst (copy_of s sc m dc))" by simp
  then show ?thesis unfolding copy_of_def copy_nodes_keys
    by (auto simp: strict_prefix_def)
qed

lemma copy_of_under: "e \<in> set (copy_of s sc m dc) \<Longrightarrow> prefix dc (fst e)"
  by (drule copy_of_keys) auto

lemma names_plain_iff: "names_plain t = (\<forall>e\<in>set t. \<forall>n\<in>set (fst e). plain_name n)"
  by (auto simp: names_plain_def list_all_iff)

lemma copy_of_plain:
  assumes "names_plain (fs s)" "list_all plain_name dc" "e \<in> set (copy_of s sc m dc)"
  shows "\<forall>n\<in>set (fst e). plain_name n"
proof -
  from copy_of_keys[OF assms(3)]
  show ?thesis
  proof
    assume "fst e = dc"
    with assms(2) show ?thesis by (simp add: list_all_iff)
  next
    assume "\<exists>q\<in>fst ` set (fs s). prefix sc q \<and> fst e = dc @ drop (length sc) q"
    then obtain q where q: "q \<in> fst ` set (fs s)" "fst e = dc @ drop (length sc) q" by blast
    from q(1) assms(1) have "\<forall>n\<in>set q. plain_name n" by (auto simp: names_plain_iff)
    moreover have "set (drop (length sc) q) \<subseteq> set q" by (rule set_drop_subset)
    ultimately show ?thesis using assms(2) q(2) by (auto simp: list_all_iff)
  qed
qed

lemma names_plain_remove: "names_plain t \<Longrightarrow> names_plain (remove_entry c t)"
  by (auto simp: names_plain_iff remove_entry_def)

lemma names_plain_append:
  "names_plain t \<Longrightarrow> \<forall>e\<in>set es. \<forall>n\<in>set (fst e). plain_name n \<Longrightarrow> names_plain (t @ es)"
  by (auto simp: names_plain_iff)

lemma copy_of_top:
  "dc \<noteq> [] \<Longrightarrow> map_of (copy_of s sc m dc) dc = Some (Dir (Meta (mode m) (euid s) (egid s)))"
  by (simp add: copy_of_def)


section \<open>The sanitizer: invariants of the walk\<close>

lemma noted_Return:
  "noted p k x = (Return u, s') \<Longrightarrow>
   \<exists>s2. x = (Return u, s2) \<and> s' = s2\<lparr>replaced := replaced s2 @ [(p, k)]\<rparr>"
  by (cases x) (auto simp: noted_def split: outcome.splits)

lemma exit_on_error_Return: "exit_on_error x = (Return u, s') \<Longrightarrow> x = (Return u, s')"
  by (cases x) (auto simp: exit_on_error_def split: outcome.splits)

lemma sanitize_replace_effect:
  assumes D: "real_dir (fs s) D" "plain_name n"
    and L: "node_at (fs s) (D @ [n]) = Some (Link link)"
    and run: "sanitize_replace (abs_str (D @ [n])) target s = (Return (), s')"
  shows "\<exists>k es. fs s' = remove_entry (D @ [n]) (fs s) @ es
     \<and> (\<forall>e\<in>set es. prefix (D @ [n]) (fst e))
     \<and> (names_plain (fs s) \<longrightarrow> (\<forall>e\<in>set es. \<forall>x\<in>set (fst e). plain_name x))
     \<and> replaced s' = replaced s @ [(abs_str (D @ [n]), k)]
     \<and> fits k (map_of es (D @ [n]))"
proof -
  let ?c = "D @ [n]"
  let ?s1 = "s\<lparr>fs := remove_entry ?c (fs s)\<rparr>"
  have D1: "real_dir (fs ?s1) D" using real_dir_unlinked[OF D(1)] .
  have plc: "list_all plain_name ?c" using real_dir_plain[OF D(1)] D(2) by simp
  note run' = run[unfolded sanitize_replace_abs[OF D L] Let_def]
  show ?thesis
  proof (cases "os_path_isfile ?s1 target")
    case True
    with run' have "noted (abs_str ?c) HardLink (os_link target (abs_str ?c) ?s1) = (Return (), s')"
      by simp
    from noted_Return[OF this] obtain s2 where
      ol: "os_link target (abs_str ?c) ?s1 = (Return (), s2)"
      and s': "s' = s2\<lparr>replaced := replaced s2 @ [(abs_str ?c, HardLink)]\<rparr>" by blast
    from ol obtain m i d where s2: "s2 = ?s1\<lparr>fs := fs ?s1 @ [(?c, File m i d)]\<rparr>"
      unfolding os_link_abs[OF D1 D(2)]
      by (auto split: sum.splits node.splits option.splits)
    show ?thesis
      by (rule exI[of _ HardLink], rule exI[of _ "[(?c, File m i d)]"])
         (use s' s2 plc in \<open>simp add: fits_def list_all_iff\<close>)
  next
    case nf: False
    show ?thesis
    proof (cases "os_path_isdir ?s1 target")
      case True
      with nf run' have "noted (abs_str ?c) Copy (shutil_copytree target (abs_str ?c) ?s1) = (Return (), s')"
        by simp
      from noted_Return[OF this] obtain s2 where
        ct: "shutil_copytree target (abs_str ?c) ?s1 = (Return (), s2)"
        and s': "s' = s2\<lparr>replaced := replaced s2 @ [(abs_str ?c, Copy)]\<rparr>" by blast
      from ct obtain sc m where fs2: "fs s2 = fs ?s1 @ copy_of ?s1 sc m ?c"
        and rp2: "replaced s2 = replaced ?s1"
        unfolding shutil_copytree_abs[OF D1 D(2)]
        by (auto split: sum.splits node.splits option.splits if_splits)
      have np: "names_plain (fs s) \<longrightarrow> (\<forall>e\<in>set (copy_of ?s1 sc m ?c). \<forall>x\<in>set (fst e). plain_name x)"
      proof
        assume "names_plain (fs s)"
        then have "names_plain (fs ?s1)" by (simp add: names_plain_remove)
        from copy_of_plain[OF this plc] show "\<forall>e\<in>set (copy_of ?s1 sc m ?c). \<forall>x\<in>set (fst e). plain_name x"
          by blast
      qed
      show ?thesis
        by (rule exI[of _ Copy], rule exI[of _ "copy_of ?s1 sc m ?c"])
           (use s' fs2 rp2 np copy_of_under[of _ ?s1 sc m ?c] copy_of_top[of ?c ?s1 sc m] in
             \<open>auto simp: fits_def\<close>)
    next
      case False
      with nf run' have "noted (abs_str ?c) Nothing (Return (), ?s1) = (Return (), s')" by simp
      then have s': "s' = ?s1\<lparr>replaced := replaced s @ [(abs_str ?c, Nothing)]\<rparr>"
        by (simp add: noted_def)
      show ?thesis
        by (rule exI[of _ Nothing], rule exI[of _ "[]"]) (use s' in \<open>simp add: fits_def\<close>)
    qed
  qed
qed

lemma sanitize_entry_effect:
  assumes D: "real_dir (fs s) D" "D \<noteq> []" "plain_name n"
    and run: "sanitize_entry rootdir (abs_str D) n s = Some (Return (), s')"
  shows "s' = s
     \<or> (is_link_at (fs s) (D @ [n]) \<and> outside (D @ [n]) (fs s) (fs s')
        \<and> (names_plain (fs s) \<longrightarrow> names_plain (fs s'))
        \<and> (\<exists>k. replaced s' = replaced s @ [(abs_str (D @ [n]), k)]
                \<and> fits k (node_at (fs s') (D @ [n]))))"
proof (cases "is_link_at (fs s) (D @ [n])")
  case False
  with run sanitize_entry_skip[OF D False] show ?thesis by simp
next
  case True
  then obtain link where L: "node_at (fs s) (D @ [n]) = Some (Link link)"
    by (auto simp: is_link_at_def split: option.splits node.splits)
  let ?c = "D @ [n]"
  from run[unfolded sanitize_entry_link[OF D L]]
  have "s' = s \<or> (\<exists>target. exit_on_error (sanitize_replace (abs_str ?c) target s) = (Return (), s'))"
    by (auto split: sum.splits option.splits if_splits)
  then show ?thesis
  proof
    assume "s' = s" then show ?thesis by simp
  next
    assume "\<exists>target. exit_on_error (sanitize_replace (abs_str ?c) target s) = (Return (), s')"
    then obtain target where "sanitize_replace (abs_str ?c) target s = (Return (), s')"
      by (auto dest: exit_on_error_Return)
    from sanitize_replace_effect[OF D(1,3) L this] obtain k es where
      fs': "fs s' = remove_entry ?c (fs s) @ es"
      and under: "\<forall>e\<in>set es. prefix ?c (fst e)"
      and pl: "names_plain (fs s) \<longrightarrow> (\<forall>e\<in>set es. \<forall>x\<in>set (fst e). plain_name x)"
      and rp: "replaced s' = replaced s @ [(abs_str ?c, k)]"
      and ft: "fits k (map_of es ?c)" by blast
    have out: "outside ?c (fs s) (fs s')" unfolding fs' using outside_replace[OF _ under] by simp
    have np: "names_plain (fs s) \<longrightarrow> names_plain (fs s')"
      unfolding fs' using pl by (auto intro!: names_plain_append names_plain_remove)
    have "node_at (fs s') ?c = map_of es ?c"
      unfolding fs' by (simp add: node_at_append_list node_at_remove_entry)
    with ft have "fits k (node_at (fs s') ?c)" by simp
    with True out np rp show ?thesis by blast
  qed
qed

lemma fits_not_link: "fits k (node_at t c) \<Longrightarrow> \<not> is_link_at t c"
  by (cases k) (auto simp: fits_def is_link_at_def split: option.splits node.splits)

lemma sanitize_entry_inv:
  assumes D: "real_dir (fs s) D" "D \<noteq> []" "plain_name n"
    and run: "sanitize_entry rootdir (abs_str D) n s = Some (Return (), s')"
    and I: "names_plain (fs s)" "log_ok (fs s) (replaced s)"
  shows "names_plain (fs s') \<and> log_ok (fs s') (replaced s') \<and> real_dir (fs s') D
     \<and> (\<forall>c. quiet (fs s) c \<longrightarrow> quiet (fs s') c)"
proof -
  from sanitize_entry_effect[OF D run]
  show ?thesis
  proof
    assume "s' = s"
    with D I show ?thesis by simp
  next
    let ?c = "D @ [n]"
    assume "is_link_at (fs s) ?c \<and> outside ?c (fs s) (fs s')
        \<and> (names_plain (fs s) \<longrightarrow> names_plain (fs s'))
        \<and> (\<exists>k. replaced s' = replaced s @ [(abs_str ?c, k)] \<and> fits k (node_at (fs s') ?c))"
    then obtain k where lk: "is_link_at (fs s) ?c" and out: "outside ?c (fs s) (fs s')"
      and np: "names_plain (fs s')" and rp: "replaced s' = replaced s @ [(abs_str ?c, k)]"
      and ft: "fits k (node_at (fs s') ?c)" using I(1) by blast
    have RD: "real_dir (fs s') D" using real_dir_outside[OF D(1) _ out] by simp
    have q: "quiet (fs s') c \<and> node_at (fs s') c = node_at (fs s) c" if "quiet (fs s) c" for c
      using quiet_outside[OF that quiet_not_under[OF lk that] out] .
    have new: "quiet (fs s') ?c"
      using RD D(3) fits_not_link[OF ft] by (simp add: quiet_def)
    have "log_ok (fs s') (replaced s')"
      unfolding log_ok_def rp
    proof
      fix e assume "e \<in> set (replaced s @ [(abs_str ?c, k)])"
      then consider "e \<in> set (replaced s)" | "e = (abs_str ?c, k)" by auto
      then show "\<exists>c. fst e = abs_str c \<and> quiet (fs s') c \<and> fits (snd e) (node_at (fs s') c)"
      proof cases
        case 1
        with I(2) obtain c where "fst e = abs_str c" "quiet (fs s) c" "fits (snd e) (node_at (fs s) c)"
          by (auto simp: log_ok_def)
        with q[of c] show ?thesis by auto
      next
        case 2
        with new ft show ?thesis by auto
      qed
    qed
    with np RD q show ?thesis by blast
  qed
qed

lemma sanitize_files_inv:
  assumes "real_dir (fs s) D" "D \<noteq> []" "\<forall>n\<in>set names. plain_name n"
    and "sanitize_files rootdir (abs_str D) names s = Some (Return (), s')"
    and "names_plain (fs s)" "log_ok (fs s) (replaced s)"
  shows "names_plain (fs s') \<and> log_ok (fs s') (replaced s') \<and> real_dir (fs s') D
     \<and> (\<forall>c. quiet (fs s) c \<longrightarrow> quiet (fs s') c)"
  using assms
proof (induction names arbitrary: s)
  case Nil
  then show ?case by simp
next
  case (Cons n names)
  from Cons.prems(4) obtain r1 s1 where 1: "sanitize_entry rootdir (abs_str D) n s = Some (r1, s1)"
    by (cases "sanitize_entry rootdir (abs_str D) n s") auto
  from Cons.prems(4) 1 have r1: "r1 = Return ()" by (cases r1) auto
  from Cons.prems(4) 1 r1 have rest: "sanitize_files rootdir (abs_str D) names s1 = Some (Return (), s')"
    by simp
  from Cons.prems(3) have pn: "plain_name n" and pns: "\<forall>n\<in>set names. plain_name n" by auto
  note E = sanitize_entry_inv[OF Cons.prems(1,2) pn 1[unfolded r1] Cons.prems(5,6)]
  from E have a: "real_dir (fs s1) D" "names_plain (fs s1)" "log_ok (fs s1) (replaced s1)" by blast+
  note R = Cons.IH[OF a(1) Cons.prems(2) pns rest a(2,3)]
  from E R show ?case by blast
qed

lemma children_plain: "names_plain t \<Longrightarrow> n \<in> set (children t d) \<Longrightarrow> plain_name n"
proof -
  assume np: "names_plain t" and "n \<in> set (children t d)"
  then obtain e where e: "e \<in> set t" "fst e \<noteq> []" "n = last (fst e)"
    by (auto simp: children_def)
  then have "n \<in> set (fst e)" by simp
  with np e(1) show ?thesis by (auto simp: names_plain_iff)
qed

lemma scandir_quiet:
  assumes q: "quiet (fs s) c" and sd: "scandir s (abs_str c) = Inr (dirs, files)"
  shows "real_dir (fs s) c \<and> set dirs \<subseteq> set (children (fs s) c)
     \<and> set files \<subseteq> set (children (fs s) c)"
proof -
  from q have c: "c \<noteq> []" and rd: "real_dir (fs s) (butlast c)" and pl: "plain_name (last c)"
    and nl: "\<not> is_link_at (fs s) c" by (auto simp: quiet_def)
  have cc: "butlast c @ [last c] = c" using c by simp
  have res: "resolve True s (abs_str c) = namei 40 (fs s) True (butlast c) [last c]"
    using resolve_abs_last[OF rd pl, of True] unfolding cc .
  from sd nl have dir: "is_dir_at (fs s) c"
    unfolding scandir_def res namei_last_follow[OF pl] cc
    by (auto simp: is_link_at_def is_dir_at_def split: option.splits node.splits sum.splits)
  then have rc: "resolve True s (abs_str c) = Inr c"
    unfolding res namei_last_follow[OF pl] cc
    by (auto simp: is_dir_at_def split: option.splits node.splits)
  from rd pl dir have "real_dir (fs s) c" using real_dir_snoc[of "fs s" "butlast c" "last c"] cc by simp
  moreover from sd have "set dirs \<subseteq> set (children (fs s) c)" "set files \<subseteq> set (children (fs s) c)"
    unfolding scandir_def rc by (auto split: option.splits node.splits)
  ultimately show ?thesis by blast
qed

lemma walk_loop_inv:
  assumes "walk_loop rootdir stack s = Some y"
  shows "names_plain (fs s) \<Longrightarrow> log_ok (fs s) (replaced s) \<Longrightarrow> stack_ok (fs s) stack \<Longrightarrow>
         fst y = Return () \<Longrightarrow> log_ok (fs (snd y)) (replaced (snd y))"
  using assms
proof (induction rootdir stack s y rule: walk_loop.raw_induct[rotated, consumes 1])
  case (1 walk rootdir stack s y)
  note IH = 1(1) and body = 1(2) and np = 1(3) and lg = 1(4) and st = 1(5) and ret = 1(6)
  show ?case
  proof (cases stack)
    case Nil
    with body lg show ?thesis by auto
  next
    case (Cons topdir rest)
    from st Cons obtain c where top: "topdir = abs_str c" and qc: "quiet (fs s) c"
      and strest: "stack_ok (fs s) rest" by (auto simp: stack_ok_def)
    show ?thesis
    proof (cases "scandir s topdir")
      case (Inl e)
      with Cons body have "walk rootdir rest s = Some y" by simp
      from IH[OF this np lg strest ret] show ?thesis .
    next
      case (Inr df)
      obtain dirs files where df: "df = (dirs, files)" by (cases df)
      from scandir_quiet[OF qc Inr[unfolded top df]]
      have rc: "real_dir (fs s) c" and sub: "set dirs \<subseteq> set (children (fs s) c)"
        "set files \<subseteq> set (children (fs s) c)" by blast+
      from qc have cne: "c \<noteq> []" by (simp add: quiet_def)
      have pf: "\<forall>n\<in>set files. plain_name n" using sub(2) children_plain[OF np] by blast
      have pd: "\<forall>n\<in>set dirs. plain_name n" using sub(1) children_plain[OF np] by blast
      show ?thesis
      proof (cases "sanitize_files rootdir topdir files s")
        case None
        with Cons Inr df body show ?thesis by simp
      next
        case (Some rs)
        obtain r s1 where rs: "rs = (r, s1)" by (cases rs)
        show ?thesis
        proof (cases r)
          case (Raise e)
          with Cons Inr df Some rs body ret show ?thesis by auto
        next
          case (Return u)
          with Cons Inr df Some rs body
          have w: "walk rootdir (filter (\<lambda>d. \<not> os_path_islink s1 d) (map (join2 topdir) dirs) @ rest) s1 = Some y"
            by simp
          from Some rs Return have sf: "sanitize_files rootdir (abs_str c) files s = Some (Return (), s1)"
            by (simp add: top)
          note F = sanitize_files_inv[OF rc cne pf sf np lg]
          from F have np1: "names_plain (fs s1)" and lg1: "log_ok (fs s1) (replaced s1)"
            and rc1: "real_dir (fs s1) c" and qs: "\<forall>c. quiet (fs s) c \<longrightarrow> quiet (fs s1) c" by blast+
          have st1: "stack_ok (fs s1) (filter (\<lambda>d. \<not> os_path_islink s1 d) (map (join2 topdir) dirs) @ rest)"
            unfolding stack_ok_def
          proof
            fix d assume "d \<in> set (filter (\<lambda>d. \<not> os_path_islink s1 d) (map (join2 topdir) dirs) @ rest)"
            then consider n where "n \<in> set dirs" "d = join2 topdir n" "\<not> os_path_islink s1 d"
              | "d \<in> set rest" by auto
            then show "\<exists>c. d = abs_str c \<and> quiet (fs s1) c"
            proof cases
              case 1
              with pd have pn: "plain_name n" by blast
              have j: "d = abs_str (c @ [n])"
                using 1(2) join2_abs_name[OF cne real_dir_plain[OF rc] pn] by (simp add: top)
              from 1(3) have "\<not> is_link_at (fs s1) (c @ [n])"
                unfolding j os_path_islink_abs[OF rc1 pn] .
              with rc1 pn have "quiet (fs s1) (c @ [n])" by (simp add: quiet_def)
              with j show ?thesis by blast
            next
              case 2
              with strest obtain c' where "d = abs_str c'" "quiet (fs s) c'" by (auto simp: stack_ok_def)
              with qs show ?thesis by blast
            qed
          qed
          from IH[OF w np1 lg1 st1 ret] show ?thesis .
        qed
      qed
    qed
  qed
qed

lemma sanitize_usr_symlinks_log:
  assumes "R \<noteq> []" "real_dir (fs s) R" "\<not> is_link_at (fs s) (R @ [''usr''])"
    and "names_plain (fs s)" "replaced s = []"
    and "sanitize_usr_symlinks (abs_str R) s = Some (Return (), s')"
  shows "log_ok (fs s') (replaced s')"
proof -
  have pu: "plain_name ''usr''" by (simp add: plain_name_def)
  have j: "join2 (abs_str R) ''usr'' = abs_str (R @ [''usr''])"
    using join2_abs_name[OF assms(1) real_dir_plain[OF assms(2)] pu] .
  have q: "quiet (fs s) (R @ [''usr''])" using assms(2,3) pu by (simp add: quiet_def)
  have st: "stack_ok (fs s) [abs_str (R @ [''usr''])]" using q by (auto simp: stack_ok_def)
  have lg: "log_ok (fs s) (replaced s)" using assms(5) by (simp add: log_ok_def)
  from assms(6) have w: "walk_loop (abs_str R) [abs_str (R @ [''usr''])] s = Some (Return (), s')"
    by (simp add: sanitize_usr_symlinks_def j)
  from walk_loop_inv[OF w assms(4) lg st] show ?thesis by simp
qed

lemma log_ok_no_link:
  "log_ok (fs s) lg \<Longrightarrow> e \<in> set lg \<Longrightarrow> \<not> os_path_islink s (fst e)"
proof -
  assume "log_ok (fs s) lg" "e \<in> set lg"
  then obtain c where c: "fst e = abs_str c" "quiet (fs s) c" by (auto simp: log_ok_def)
  then have cc: "butlast c @ [last c] = c" and rd: "real_dir (fs s) (butlast c)"
    and pl: "plain_name (last c)" and nl: "\<not> is_link_at (fs s) c" by (auto simp: quiet_def)
  from os_path_islink_abs[OF rd pl] nl show ?thesis unfolding c(1) cc by simp
qed

lemma log_ok_nothing:
  "log_ok (fs s) lg \<Longrightarrow> (p, Nothing) \<in> set lg \<Longrightarrow> stat_at False s p = Inl ENOENT"
proof -
  assume "log_ok (fs s) lg" "(p, Nothing) \<in> set lg"
  then obtain c where c: "p = abs_str c" "quiet (fs s) c" "fits Nothing (node_at (fs s) c)"
    by (force simp: log_ok_def)
  then have cc: "butlast c @ [last c] = c" and rd: "real_dir (fs s) (butlast c)"
    and pl: "plain_name (last c)" by (auto simp: quiet_def)
  from c(3) have "node_at (fs s) c = None" by (simp add: fits_def)
  with stat_nofollow_abs[OF rd pl] show ?thesis unfolding c(1) cc by simp
qed

end
